theory Spec2Isabelle
  imports Main
begin

section \<open>Requests and their validation\<close>

text \<open>
  The repository holds two implementations of the shovel: package \<open>shovel\<close>
  (entry point \<open>Handler\<close>, job \<open>processShovelRequest\<close>) and package
  \<open>main\<close> (entry point \<open>ShovelMessages\<close>, job \<open>processMessages\<close>).
  Constants translated from package \<open>shovel\<close> carry the prefix \<open>shovel_\<close>,
  those from package \<open>main\<close> the prefix \<open>main_\<close>; what the two files
  declare with identical text is translated once.

  Go's \<open>int\<close> is modelled as \<open>int\<close>: the request's numbers are only
  compared, and the counters of a job are only incremented from zero, once per
  delivered message, so they stay far below \<open>2^63\<close>.  A Go string is a sequence
  of bytes and is modelled as a list of \<open>char\<close> (the 8-bit characters of HOL).
  The error that \<open>validateRequest\<close> returns is modelled by its message;
  \<open>None\<close> is \<open>nil\<close>.
\<close>

record ShovelRequest =
  NumMessages :: int
  AllMessages :: bool
  SourceSubscription :: string
  TargetTopic :: string

definition shovel_validateRequest :: "ShovelRequest \<Rightarrow> string option" where
  "shovel_validateRequest req =
     (if SourceSubscription req = [] then Some ''sourceSubscription is required''
      else if TargetTopic req = [] then Some ''targetTopic is required''
      else if \<not> AllMessages req \<and> NumMessages req \<le> 0
        then Some ''numMessages must be greater than 0 when allMessages is false''
      else if AllMessages req \<and> NumMessages req > 0
        then Some ''cannot specify both allMessages=true and numMessages > 0''
      else None)"

definition main_validateRequest :: "ShovelRequest \<Rightarrow> string option" where
  "main_validateRequest req =
     (if SourceSubscription req = [] then Some ''sourceSubscription is required''
      else if TargetTopic req = [] then Some ''targetTopic is required''
      else if \<not> AllMessages req \<and> NumMessages req \<le> 0
        then Some ''numMessages must be positive when allMessages is false''
      else if AllMessages req \<and> NumMessages req > 0
        then Some ''cannot specify both allMessages=true and numMessages''
      else None)"

section \<open>Resource names\<close>

text \<open>
  \<open>splitResourceName\<close> has the same text in both packages: a loop
  \<open>for _, char := range name\<close> with the two variables \<open>result\<close> and
  \<open>current\<close>.  Ranging over a string decodes it as UTF-8, one rune per iteration:
  a byte below \<open>0x80\<close> is a rune of its own; a lead byte \<open>C2..DF\<close>,
  \<open>E0..EF\<close> or \<open>F0..F4\<close> followed by one, two or three continuation bytes
  \<open>80..BF\<close> is one rune, unless the sequence is over-long (\<open>E0\<close> before
  \<open>80..9F\<close>, \<open>F0\<close> before \<open>80..8F\<close>), a surrogate (\<open>ED\<close>
  before \<open>A0..BF\<close>) or beyond \<open>U+10FFFF\<close> (\<open>F4\<close> before
  \<open>90..BF\<close>); any other byte is invalid, yields the rune \<open>U+FFFD\<close> and
  the iteration advances by that single byte.  \<open>runeWidth b0 bs\<close> is the number
  of bytes of the rune that starts at \<open>b0\<close>, and \<open>0\<close> when \<open>b0\<close> is
  invalid there.

  The loop uses a rune in two ways: it compares it with \<open>'/'\<close> and it appends
  \<open>string(char)\<close>, the UTF-8 encoding of the rune, to \<open>current\<close>.  So
  \<open>runes\<close> lists, for each iteration, the string \<open>string(char)\<close>: the bytes
  of the sequence itself when it is valid (the encoding of a rune decoded from a valid
  sequence is that sequence), and \<open>EF BF BD\<close>, the encoding of \<open>U+FFFD\<close>,
  for an invalid byte.  The rune is \<open>'/'\<close> exactly when that string is
  \<open>''/''\<close>.
\<close>

definition continuation :: "char \<Rightarrow> bool" where
  "continuation b = (128 \<le> (of_char b :: nat) \<and> (of_char b :: nat) \<le> 191)"

definition runeWidth :: "char \<Rightarrow> string \<Rightarrow> nat" where
  "runeWidth b0 bs =
     (let x = (of_char b0 :: nat) in
      if x < 128 then 1
      else if 194 \<le> x \<and> x \<le> 223 then
        (case bs of
           b1 # _ \<Rightarrow> if continuation b1 then 2 else 0
         | _ \<Rightarrow> 0)
      else if 224 \<le> x \<and> x \<le> 239 then
        (case bs of
           b1 # b2 # _ \<Rightarrow>
             if continuation b1 \<and> continuation b2 \<and>
                \<not> (x = 224 \<and> (of_char b1 :: nat) < 160) \<and>
                \<not> (x = 237 \<and> 160 \<le> (of_char b1 :: nat))
             then 3 else 0
         | _ \<Rightarrow> 0)
      else if 240 \<le> x \<and> x \<le> 244 then
        (case bs of
           b1 # b2 # b3 # _ \<Rightarrow>
             if continuation b1 \<and> continuation b2 \<and> continuation b3 \<and>
                \<not> (x = 240 \<and> (of_char b1 :: nat) < 144) \<and>
                \<not> (x = 244 \<and> 144 \<le> (of_char b1 :: nat))
             then 4 else 0
         | _ \<Rightarrow> 0)
      else 0)"

definition RuneError :: string where
  "RuneError = [CHR 0xEF, CHR 0xBF, CHR 0xBD]"

function runes :: "string \<Rightarrow> string list" where
  "runes [] = []"
| "runes (b0 # bs) =
     (if runeWidth b0 bs = 0 then RuneError # runes bs
      else (b0 # take (runeWidth b0 bs - 1) bs) # runes (drop (runeWidth b0 bs - 1) bs))"
  by pat_completeness auto
termination
  by (relation "measure length") auto

text \<open>
  \<open>reencoded name\<close> is \<open>string([]rune(name))\<close>: the string rebuilt from the runes
  of \<open>name\<close>.  It is \<open>name\<close> itself exactly when \<open>name\<close> is valid UTF-8.
\<close>

definition reencoded :: "string \<Rightarrow> string" where
  "reencoded name = concat (runes name)"

text \<open>
  The loop of \<open>splitResourceName\<close>, over the runes that are left, each given by
  its \<open>string(char)\<close>.
\<close>

fun splitLoop :: "string list \<Rightarrow> string list \<Rightarrow> string \<Rightarrow> string list" where
  "splitLoop [] result current =
     (if current \<noteq> [] then result @ [current] else result)"
| "splitLoop (char # rest) result current =
     (if char = ''/''
      then (if current \<noteq> [] then splitLoop rest (result @ [current]) []
            else splitLoop rest result current)
      else splitLoop rest result (current @ char))"

definition splitResourceName :: "string \<Rightarrow> string list" where
  "splitResourceName name = splitLoop (runes name) [] []"

definition main_extractResourceName :: "string \<Rightarrow> string" where
  "main_extractResourceName fqdn =
     (let parts = splitResourceName fqdn
      in if length parts \<ge> 4 then parts ! 3 else fqdn)"

definition shovel_extractResourceName :: "string \<Rightarrow> string" where
  "shovel_extractResourceName fqdn =
     (let parts = splitResourceName fqdn
      in if length parts > 0 then parts ! (length parts - 1) else [])"

definition main_extractProjectID :: "string \<Rightarrow> string" where
  "main_extractProjectID fqdn =
     (let parts = splitResourceName fqdn
      in if length parts \<ge> 2 \<and> parts ! 0 = ''projects'' then parts ! 1 else [])"

fun projectLoop :: "string list \<Rightarrow> string" where
  "projectLoop [] = []"
| "projectLoop [part] = []"
| "projectLoop (part # nxt # rest) =
     (if part = ''projects'' then nxt else projectLoop (nxt # rest))"

definition shovel_extractProjectID :: "string \<Rightarrow> string" where
  "shovel_extractProjectID resourceName = projectLoop (splitResourceName resourceName)"

section \<open>The relay of package shovel\<close>

text \<open>
  An error of the pubsub library is \<open>context.Canceled\<close> or another error with its
  text; \<open>errText\<close> is what \<open>%v\<close> prints.
\<close>

datatype go_error = Canceled | Failure string

definition errText :: "go_error \<Rightarrow> string" where
  "errText e = (case e of Canceled \<Rightarrow> ''context canceled'' | Failure x \<Rightarrow> x)"

text \<open>
  \<open>processShovelRequest\<close> runs several goroutines on shared variables: the callback
  that \<open>Receive\<close> invokes for each delivered message, with the goroutine the callback
  starts to wait for the publish result (lines 167 to 206); the goroutine that runs
  \<open>Receive\<close> (lines 166 to 212); and the main goroutine (lines 214 to 237).  The
  model is a transition system whose steps are the statements of these goroutines, one
  at a time, in any order.

  A \<open>pc\<close> is the statement a message's callback or goroutine executes next:
  \<^item> \<open>AtLock\<close>: \<open>mutex.Lock()\<close>, line 168;
  \<^item> \<open>AtCheck\<close>: \<open>if acceptedCount >= maxMessages\<close>, line 170;
  \<^item> \<open>RejUnlock\<close>, \<open>RejNack\<close>, \<open>RejCancel\<close>: \<open>mutex.Unlock()\<close>,
    \<open>msg.Nack()\<close>, \<open>cancel()\<close>, lines 171 to 173; \<open>Rejected\<close>: the callback has
    returned at line 174;
  \<^item> \<open>AccInc\<close>: \<open>acceptedCount++\<close>, line 177; \<open>AccUnlock\<close>:
    \<open>mutex.Unlock()\<close>, line 179;
  \<^item> \<open>AtPublish\<close>: \<open>targetTopic.Publish\<close>, line 184, after which the callback
    starts the goroutine of line 190 and returns;
  \<^item> \<open>AtGet\<close>: \<open>result.Get(ctx)\<close>, line 191, which waits for the sink or for the
    cancellation of the context;
  \<^item> \<open>FailNack\<close>: \<open>msg.Nack()\<close>, line 194; \<open>Failed\<close>: the goroutine has ended
    after it;
  \<^item> \<open>OkAck\<close>, \<open>OkLock\<close>, \<open>OkInc\<close>, \<open>OkUnlock\<close>: \<open>msg.Ack()\<close>,
    \<open>mutex.Lock()\<close>, \<open>processedCount++\<close>, \<open>mutex.Unlock()\<close>, lines 198 to
    202; \<open>Published\<close>: the goroutine has ended after them.

  An \<open>rpc\<close> is the state of the goroutine of line 166: \<open>Receive\<close> is running; it
  has returned and the goroutine waits to send on \<open>done\<close> (line 211); the send is
  over.  An \<open>mpc\<close> is the statement the main goroutine executes next: the
  \<open>select\<close> of line 220, the sleep of line 229, lines 231 to 234, and the
  \<open>return\<close> of line 237.
\<close>

datatype pc =
    AtLock | AtCheck | RejUnlock | RejNack | RejCancel | Rejected
  | AccInc | AccUnlock | AtPublish | AtGet
  | FailNack | Failed
  | OkAck | OkLock | OkInc | OkUnlock | Published

datatype rpc = Receiving | RecvSend | RecvEnd

datatype mpc = MSelect | MSleep | MLock | MReadAccepted | MReadProcessed | MUnlock | MReturn | MDone

text \<open>
  For each delivered message: where its callback or goroutine stands, how often
  \<open>msg.Ack()\<close> and \<open>msg.Nack()\<close> were called on it, how often its data was handed
  to \<open>targetTopic.Publish\<close>, and what \<open>result.Get\<close> returned (\<open>Some True\<close>: no
  error).
\<close>

record handler =
  pc :: pc
  acks :: nat
  nacks :: nat
  forwards :: nat
  outcome :: "bool option"

text \<open>
  The variables of \<open>processShovelRequest\<close>.  \<open>mutex\<close> is true while the mutex is
  locked; \<open>cancelled\<close> is true once \<open>cancel()\<close> was called; \<open>fatal\<close> records
  the runtime's fatal error on unlocking an unlocked mutex; \<open>receiveErr\<close> is the
  variable \<open>err\<close> after \<open>Receive\<close>; \<open>clock\<close> is the time since the start of the
  job and \<open>wake\<close> the end of the sleep of line 229, both in nanoseconds as
  \<open>time.Duration\<close> counts; \<open>ret\<close> is what the function has returned, if it has.
\<close>

record RelayState =
  maxMessages :: int
  timeout :: int
  acceptedCount :: int
  processedCount :: int
  mutex :: bool
  cancelled :: bool
  fatal :: bool
  handlers :: "handler list"
  receive :: rpc
  receiveErr :: "go_error option"
  mainpc :: mpc
  clock :: int
  wake :: int
  finalAccepted :: int
  finalProcessed :: int
  ret :: "(int \<times> string option) option"

definition Second :: int where "Second = 1000000000"
definition Minute :: int where "Minute = 60 * Second"

definition shovel_maxMessages :: "ShovelRequest \<Rightarrow> int" where
  "shovel_maxMessages req = (if AllMessages req then 10000 else NumMessages req)"

definition shovel_timeout :: "ShovelRequest \<Rightarrow> int" where
  "shovel_timeout req = (if AllMessages req then 10 * Minute else 5 * Minute)"

definition shovel_grace :: int where "shovel_grace = 2 * Second"

definition shovel_init :: "ShovelRequest \<Rightarrow> RelayState" where
  "shovel_init req =
     \<lparr>maxMessages = shovel_maxMessages req, timeout = shovel_timeout req,
      acceptedCount = 0, processedCount = 0, mutex = False, cancelled = False,
      fatal = False, handlers = [], receive = Receiving, receiveErr = None,
      mainpc = MSelect, clock = 0, wake = 0, finalAccepted = 0, finalProcessed = 0,
      ret = None\<rparr>"

definition goto :: "nat \<Rightarrow> pc \<Rightarrow> RelayState \<Rightarrow> RelayState" where
  "goto m p s = s\<lparr>handlers := (handlers s)[m := (handlers s ! m)\<lparr>pc := p\<rparr>]\<rparr>"

definition unlock :: "RelayState \<Rightarrow> RelayState" where
  "unlock s = (if mutex s then s\<lparr>mutex := False\<rparr> else s\<lparr>fatal := True\<rparr>)"

definition nack :: "nat \<Rightarrow> RelayState \<Rightarrow> RelayState" where
  "nack m s = s\<lparr>handlers := (handlers s)[m := (handlers s ! m)\<lparr>nacks := Suc (nacks (handlers s ! m))\<rparr>]\<rparr>"

definition ack :: "nat \<Rightarrow> RelayState \<Rightarrow> RelayState" where
  "ack m s = s\<lparr>handlers := (handlers s)[m := (handlers s ! m)\<lparr>acks := Suc (acks (handlers s ! m))\<rparr>]\<rparr>"

definition publish :: "nat \<Rightarrow> RelayState \<Rightarrow> RelayState" where
  "publish m s = s\<lparr>handlers := (handlers s)[m := (handlers s ! m)\<lparr>forwards := Suc (forwards (handlers s ! m))\<rparr>]\<rparr>"

text \<open>
  \<open>result.Get(ctx)\<close> of message \<open>m\<close> returns, without an error when \<open>ok\<close>:
  the goroutine goes on to \<open>msg.Ack()\<close> or to \<open>msg.Nack()\<close>.
\<close>

definition getReturns :: "nat \<Rightarrow> bool \<Rightarrow> RelayState \<Rightarrow> RelayState" where
  "getReturns m ok s =
     goto m (if ok then OkAck else FailNack)
       (s\<lparr>handlers := (handlers s)[m := (handlers s ! m)\<lparr>outcome := Some ok\<rparr>]\<rparr>)"

text \<open>
  One statement of the callback or goroutine of message \<open>m\<close>.  \<open>mutex.Lock()\<close>
  takes the mutex when it is free and waits otherwise (the state stays as it is).
  \<open>result.Get(ctx)\<close> blocks until the publish call completes or the context is done:
  it waits for the answer of the sink (\<open>got\<close>, below), and once \<open>cancel()\<close> was
  called it returns the error of the context without that answer.
\<close>

definition callback :: "nat \<Rightarrow> RelayState \<Rightarrow> RelayState" where
  "callback m s =
     (if m < length (handlers s) then
        (case pc (handlers s ! m) of
           AtLock \<Rightarrow> if mutex s then s else goto m AtCheck (s\<lparr>mutex := True\<rparr>)
         | AtCheck \<Rightarrow>
             if acceptedCount s \<ge> maxMessages s then goto m RejUnlock s else goto m AccInc s
         | RejUnlock \<Rightarrow> goto m RejNack (unlock s)
         | RejNack \<Rightarrow> goto m RejCancel (nack m s)
         | RejCancel \<Rightarrow> goto m Rejected (s\<lparr>cancelled := True\<rparr>)
         | Rejected \<Rightarrow> s
         | AccInc \<Rightarrow> goto m AccUnlock (s\<lparr>acceptedCount := acceptedCount s + 1\<rparr>)
         | AccUnlock \<Rightarrow> goto m AtPublish (unlock s)
         | AtPublish \<Rightarrow> goto m AtGet (publish m s)
         | AtGet \<Rightarrow> if cancelled s then getReturns m False s else s
         | FailNack \<Rightarrow> goto m Failed (nack m s)
         | Failed \<Rightarrow> s
         | OkAck \<Rightarrow> goto m OkLock (ack m s)
         | OkLock \<Rightarrow> if mutex s then s else goto m OkInc (s\<lparr>mutex := True\<rparr>)
         | OkInc \<Rightarrow> goto m OkUnlock (s\<lparr>processedCount := processedCount s + 1\<rparr>)
         | OkUnlock \<Rightarrow> goto m Published (unlock s)
         | Published \<Rightarrow> s)
      else s)"

text \<open>
  The publish call of message \<open>m\<close> completes while its goroutine waits in
  \<open>result.Get(ctx)\<close>, which returns the answer.  Whether and when a publish succeeds
  or fails is up to the sink and the library: both are possible at every moment.
\<close>

definition got :: "nat \<Rightarrow> bool \<Rightarrow> RelayState \<Rightarrow> RelayState" where
  "got m ok s =
     (if m < length (handlers s) \<and> pc (handlers s ! m) = AtGet
      then getReturns m ok s
      else s)"

text \<open>
  While it runs, \<open>Receive\<close> may invoke the callback on a new message at any moment.
  It returns, with an error or \<open>nil\<close>, only after the outstanding calls of the
  callback have returned, as the library documents; when it returns is up to the
  library.
\<close>

definition deliver :: "RelayState \<Rightarrow> RelayState" where
  "deliver s =
     (if receive s = Receiving
      then s\<lparr>handlers := handlers s @ [\<lparr>pc = AtLock, acks = 0, nacks = 0, forwards = 0, outcome = None\<rparr>]\<rparr>
      else s)"

fun in_callback :: "pc \<Rightarrow> bool" where
  "in_callback AtLock = True"
| "in_callback AtCheck = True"
| "in_callback RejUnlock = True"
| "in_callback RejNack = True"
| "in_callback RejCancel = True"
| "in_callback AccInc = True"
| "in_callback AccUnlock = True"
| "in_callback AtPublish = True"
| "in_callback _ = False"

definition receiveReturns :: "go_error option \<Rightarrow> RelayState \<Rightarrow> RelayState" where
  "receiveReturns e s =
     (if receive s = Receiving \<and> list_all (\<lambda>h. \<not> in_callback (pc h)) (handlers s)
      then s\<lparr>receiveErr := e, receive := RecvSend\<rparr> else s)"

text \<open>
  The \<open>select\<close> of line 220: the \<open>done\<close> branch needs the goroutine of line 166
  at its send, the timeout branch needs the timeout to have elapsed and calls
  \<open>cancel()\<close>.  Then the main goroutine sleeps for two seconds, reads both counters
  under the mutex and returns \<open>finalProcessed, nil\<close>; the deferred \<open>cancel()\<close>
  runs at the return.
\<close>

definition selectDone :: "RelayState \<Rightarrow> RelayState" where
  "selectDone s =
     (if mainpc s = MSelect \<and> receive s = RecvSend
      then s\<lparr>receive := RecvEnd, mainpc := MSleep, wake := clock s + shovel_grace\<rparr>
      else s)"

definition selectTimeout :: "RelayState \<Rightarrow> RelayState" where
  "selectTimeout s =
     (if mainpc s = MSelect \<and> clock s \<ge> timeout s
      then s\<lparr>cancelled := True, mainpc := MSleep, wake := clock s + shovel_grace\<rparr>
      else s)"

definition mainStep :: "RelayState \<Rightarrow> RelayState" where
  "mainStep s =
     (case mainpc s of
        MSelect \<Rightarrow> s
      | MSleep \<Rightarrow> if clock s \<ge> wake s then s\<lparr>mainpc := MLock\<rparr> else s
      | MLock \<Rightarrow> if mutex s then s else s\<lparr>mutex := True, mainpc := MReadAccepted\<rparr>
      | MReadAccepted \<Rightarrow> s\<lparr>finalAccepted := acceptedCount s, mainpc := MReadProcessed\<rparr>
      | MReadProcessed \<Rightarrow> s\<lparr>finalProcessed := processedCount s, mainpc := MUnlock\<rparr>
      | MUnlock \<Rightarrow> (unlock s)\<lparr>mainpc := MReturn\<rparr>
      | MReturn \<Rightarrow> s\<lparr>ret := Some (finalProcessed s, None), cancelled := True, mainpc := MDone\<rparr>
      | MDone \<Rightarrow> s)"

text \<open>
  An event is one step of one goroutine, or the passing of time; a schedule is a list
  of events, and the reachable states are those that some schedule leads to from the
  initial state.
\<close>

datatype event =
    Deliver | Run nat | Got nat bool | ReceiveReturns "go_error option"
  | SelectDone | SelectTimeout | MainStep | Tick int

fun step :: "event \<Rightarrow> RelayState \<Rightarrow> RelayState" where
  "step Deliver s = deliver s"
| "step (Run m) s = callback m s"
| "step (Got m ok) s = got m ok s"
| "step (ReceiveReturns e) s = receiveReturns e s"
| "step SelectDone s = selectDone s"
| "step SelectTimeout s = selectTimeout s"
| "step MainStep s = mainStep s"
| "step (Tick d) s = (if d \<ge> 0 then s\<lparr>clock := clock s + d\<rparr> else s)"

fun run :: "event list \<Rightarrow> RelayState \<Rightarrow> RelayState" where
  "run [] s = s"
| "run (e # es) s = run es (step e s)"

section \<open>The relay of package main\<close>

text \<open>
  \<open>processMessages\<close> calls \<open>Receive\<close> itself.  For each delivered message there
  are two goroutines: the callback (lines 157 to 211) and the goroutine it starts
  (lines 168 to 197).

  An \<open>hpc\<close> is the statement the callback executes next: the \<open>select\<close> of line
  161, \<open>wg.Add(1)\<close>, the \<open>go\<close> statement, \<open>mu.Lock()\<close>,
  \<open>current := processedCount\<close>, \<open>mu.Unlock()\<close>, the test of line 204 with its
  send on \<open>done\<close>, and the deferred \<open>msg.Ack()\<close> of line 158.  A \<open>gpc\<close> is the
  statement the goroutine executes next: not started, \<open>targetTopic.Publish\<close>,
  \<open>result.Get\<close>, lines 183 to 186, the test of line 191 with its send on
  \<open>done\<close>; the deferred \<open>wg.Done()\<close> runs when the goroutine ends.  A \<open>ppc\<close>
  is where \<open>processMessages\<close> stands: in \<open>Receive\<close>, at \<open>wg.Wait()\<close>, at its
  \<open>return\<close>.

  \<open>doneCh\<close> is true while the channel \<open>done\<close>, of capacity 1, holds a value;
  \<open>wg\<close> is the counter of the wait group; \<open>main_ctxDone\<close> is true once the
  deadline of \<open>receiveCtx\<close> has passed or its \<open>cancel\<close> was called.
\<close>

datatype hpc = HSelect | HAdd | HSpawn | HLock | HRead | HUnlock | HTest | HAck | HReturned

datatype gpc = GIdle | GPublish | GGet | GLock | GInc | GRead | GUnlock | GTest | GDone

datatype ppc = PReceive | PWait | PReturn | PDone

record main_handler =
  hpc :: hpc
  gpc :: gpc
  hcurrent :: int
  gcurrent :: int
  main_acks :: nat
  main_nacks :: nat
  main_forwards :: nat
  main_outcome :: "bool option"

record MainState =
  main_NumMessages :: int
  main_AllMessages :: bool
  main_processedCount :: int
  mu :: bool
  doneCh :: bool
  wg :: int
  main_fatal :: bool
  main_handlers :: "main_handler list"
  ppc :: ppc
  main_err :: "go_error option"
  main_ctxDone :: bool
  main_clock :: int
  main_ret :: "(int \<times> string option) option"

definition main_timeout :: "ShovelRequest \<Rightarrow> int" where
  "main_timeout req = 10 * Minute"

definition main_init :: "ShovelRequest \<Rightarrow> MainState" where
  "main_init req =
     \<lparr>main_NumMessages = NumMessages req, main_AllMessages = AllMessages req,
      main_processedCount = 0, mu = False, doneCh = False, wg = 0, main_fatal = False,
      main_handlers = [], ppc = PReceive, main_err = None, main_ctxDone = False,
      main_clock = 0, main_ret = None\<rparr>"

definition hgoto :: "nat \<Rightarrow> hpc \<Rightarrow> MainState \<Rightarrow> MainState" where
  "hgoto m p s = s\<lparr>main_handlers := (main_handlers s)[m := (main_handlers s ! m)\<lparr>hpc := p\<rparr>]\<rparr>"

definition ggoto :: "nat \<Rightarrow> gpc \<Rightarrow> MainState \<Rightarrow> MainState" where
  "ggoto m p s = s\<lparr>main_handlers := (main_handlers s)[m := (main_handlers s ! m)\<lparr>gpc := p\<rparr>]\<rparr>"

definition mu_unlock :: "MainState \<Rightarrow> MainState" where
  "mu_unlock s = (if mu s then s\<lparr>mu := False\<rparr> else s\<lparr>main_fatal := True\<rparr>)"

definition wg_done :: "MainState \<Rightarrow> MainState" where
  "wg_done s = (if wg s > 0 then s\<lparr>wg := wg s - 1\<rparr> else s\<lparr>main_fatal := True\<rparr>)"

definition signal_done :: "MainState \<Rightarrow> MainState" where
  "signal_done s = (if doneCh s then s else s\<lparr>doneCh := True\<rparr>)"

definition main_callback :: "nat \<Rightarrow> MainState \<Rightarrow> MainState" where
  "main_callback m s =
     (if m < length (main_handlers s) then
        (let h = main_handlers s ! m in
         case hpc h of
           HSelect \<Rightarrow> if doneCh s then hgoto m HAck (s\<lparr>doneCh := False\<rparr>) else hgoto m HAdd s
         | HAdd \<Rightarrow> hgoto m HSpawn (s\<lparr>wg := wg s + 1\<rparr>)
         | HSpawn \<Rightarrow>
             hgoto m (if main_AllMessages s then HAck else HLock) (ggoto m GPublish s)
         | HLock \<Rightarrow> if mu s then s else hgoto m HRead (s\<lparr>mu := True\<rparr>)
         | HRead \<Rightarrow>
             hgoto m HUnlock
               (s\<lparr>main_handlers := (main_handlers s)[m := h\<lparr>hcurrent := main_processedCount s\<rparr>]\<rparr>)
         | HUnlock \<Rightarrow> hgoto m HTest (mu_unlock s)
         | HTest \<Rightarrow>
             hgoto m HAck (if hcurrent h \<ge> main_NumMessages s then signal_done s else s)
         | HAck \<Rightarrow>
             hgoto m HReturned
               (s\<lparr>main_handlers := (main_handlers s)[m := h\<lparr>main_acks := Suc (main_acks h)\<rparr>]\<rparr>)
         | HReturned \<Rightarrow> s)
      else s)"

definition main_goroutine :: "nat \<Rightarrow> MainState \<Rightarrow> MainState" where
  "main_goroutine m s =
     (if m < length (main_handlers s) then
        (let h = main_handlers s ! m in
         case gpc h of
           GIdle \<Rightarrow> s
         | GPublish \<Rightarrow>
             ggoto m GGet
               (s\<lparr>main_handlers := (main_handlers s)[m := h\<lparr>main_forwards := Suc (main_forwards h)\<rparr>]\<rparr>)
         | GGet \<Rightarrow> s
         | GLock \<Rightarrow> if mu s then s else ggoto m GInc (s\<lparr>mu := True\<rparr>)
         | GInc \<Rightarrow> ggoto m GRead (s\<lparr>main_processedCount := main_processedCount s + 1\<rparr>)
         | GRead \<Rightarrow>
             ggoto m GUnlock
               (s\<lparr>main_handlers := (main_handlers s)[m := h\<lparr>gcurrent := main_processedCount s\<rparr>]\<rparr>)
         | GUnlock \<Rightarrow> ggoto m GTest (mu_unlock s)
         | GTest \<Rightarrow>
             ggoto m GDone
               (wg_done (if \<not> main_AllMessages s \<and> gcurrent h \<ge> main_NumMessages s
                         then signal_done s else s))
         | GDone \<Rightarrow> s)
      else s)"

definition main_got :: "nat \<Rightarrow> bool \<Rightarrow> MainState \<Rightarrow> MainState" where
  "main_got m ok s =
     (if m < length (main_handlers s) \<and> gpc (main_handlers s ! m) = GGet
      then (let s' = s\<lparr>main_handlers :=
                        (main_handlers s)[m := (main_handlers s ! m)\<lparr>main_outcome := Some ok\<rparr>]\<rparr>
            in if ok then ggoto m GLock s' else ggoto m GDone (wg_done s'))
      else s)"

definition main_deliver :: "MainState \<Rightarrow> MainState" where
  "main_deliver s =
     (if ppc s = PReceive
      then s\<lparr>main_handlers := main_handlers s @
             [\<lparr>hpc = HSelect, gpc = GIdle, hcurrent = 0, gcurrent = 0, main_acks = 0,
               main_nacks = 0, main_forwards = 0, main_outcome = None\<rparr>]\<rparr>
      else s)"

definition main_receiveReturns :: "go_error option \<Rightarrow> MainState \<Rightarrow> MainState" where
  "main_receiveReturns e s =
     (if ppc s = PReceive \<and> list_all (\<lambda>h. hpc h = HReturned) (main_handlers s)
      then s\<lparr>main_err := e, ppc := PWait\<rparr> else s)"

definition main_deadline :: "ShovelRequest \<Rightarrow> MainState \<Rightarrow> MainState" where
  "main_deadline req s =
     (if main_clock s \<ge> main_timeout req then s\<lparr>main_ctxDone := True\<rparr> else s)"

definition main_returnError :: "go_error option \<Rightarrow> string option" where
  "main_returnError err =
     (case err of
        None \<Rightarrow> None
      | Some e \<Rightarrow>
          if e \<noteq> Canceled then Some (''error during message processing: '' @ errText e)
          else None)"

definition main_mainStep :: "MainState \<Rightarrow> MainState" where
  "main_mainStep s =
     (case ppc s of
        PReceive \<Rightarrow> s
      | PWait \<Rightarrow> if wg s = 0 then s\<lparr>ppc := PReturn\<rparr> else s
      | PReturn \<Rightarrow>
          s\<lparr>main_ret := Some (main_processedCount s, main_returnError (main_err s)),
            main_ctxDone := True, ppc := PDone\<rparr>
      | PDone \<Rightarrow> s)"

datatype main_event =
    MDeliver | MRun nat | MGo nat | MGot nat bool | MReceiveReturns "go_error option"
  | MDeadline | MMain | MTick int

fun main_step :: "ShovelRequest \<Rightarrow> main_event \<Rightarrow> MainState \<Rightarrow> MainState" where
  "main_step req MDeliver s = main_deliver s"
| "main_step req (MRun m) s = main_callback m s"
| "main_step req (MGo m) s = main_goroutine m s"
| "main_step req (MGot m ok) s = main_got m ok s"
| "main_step req (MReceiveReturns e) s = main_receiveReturns e s"
| "main_step req MDeadline s = main_deadline req s"
| "main_step req MMain s = main_mainStep s"
| "main_step req (MTick d) s = (if d \<ge> 0 then s\<lparr>main_clock := main_clock s + d\<rparr> else s)"

fun main_run :: "ShovelRequest \<Rightarrow> main_event list \<Rightarrow> MainState \<Rightarrow> MainState" where
  "main_run req [] s = s"
| "main_run req (e # es) s = main_run req es (main_step req e s)"

text \<open>
  What the precondition checks of a job find: the error of \<open>pubsub.NewClient\<close> for
  a project, and the result of \<open>Exists\<close> for a topic name.  A job is aborted with the
  error it returns, or it has run its relay under a schedule; what it has returned is
  \<open>(0, error)\<close> in the first case and the \<open>ret\<close> of the state in the second.
\<close>

record Env =
  newClient :: "string \<Rightarrow> go_error option"
  topicExists :: "string \<Rightarrow> go_error + bool"

datatype 'st job = Aborted string | Ran 'st

definition processShovelRequest ::
  "Env \<Rightarrow> event list \<Rightarrow> ShovelRequest \<Rightarrow> RelayState job" where
  "processShovelRequest env sched req =
     (case newClient env (shovel_extractProjectID (SourceSubscription req)) of
        Some e \<Rightarrow> Aborted (''failed to create pubsub client: '' @ errText e)
      | None \<Rightarrow>
          (case topicExists env (shovel_extractResourceName (TargetTopic req)) of
             Inl e \<Rightarrow> Aborted (''failed to check if target topic exists: '' @ errText e)
           | Inr exists \<Rightarrow>
               if \<not> exists
               then Aborted (''target topic '' @ TargetTopic req @ '' does not exist'')
               else Ran (run sched (shovel_init req))))"

definition shovel_returned :: "RelayState job \<Rightarrow> (int \<times> string option) option" where
  "shovel_returned j = (case j of Aborted msg \<Rightarrow> Some (0, Some msg) | Ran s \<Rightarrow> ret s)"

definition processMessages ::
  "Env \<Rightarrow> main_event list \<Rightarrow> ShovelRequest \<Rightarrow> MainState job" where
  "processMessages env sched req =
     (case newClient env (main_extractProjectID (SourceSubscription req)) of
        Some e \<Rightarrow> Aborted (''failed to create pubsub client: '' @ errText e)
      | None \<Rightarrow>
          (case topicExists env (main_extractResourceName (TargetTopic req)) of
             Inl e \<Rightarrow> Aborted (''failed to check target topic existence: '' @ errText e)
           | Inr exists \<Rightarrow>
               if \<not> exists
               then Aborted (''target topic '' @ TargetTopic req @ '' does not exist'')
               else Ran (main_run req sched (main_init req))))"

definition main_returned :: "MainState job \<Rightarrow> (int \<times> string option) option" where
  "main_returned j = (case j of Aborted msg \<Rightarrow> Some (0, Some msg) | Ran s \<Rightarrow> main_ret s)"

section \<open>Invariants of the relay of package shovel\<close>

text \<open>
  The number of elements of a list that satisfy a predicate, and the number of messages
  whose callback or goroutine stands at a given statement.
\<close>

definition countP :: "('a \<Rightarrow> bool) \<Rightarrow> 'a list \<Rightarrow> int" where
  "countP P xs = int (length (filter P xs))"

definition num_at :: "pc \<Rightarrow> RelayState \<Rightarrow> int" where
  "num_at p s = countP (\<lambda>h. pc h = p) (handlers s)"

text \<open>
  The statements between \<open>mutex.Lock()\<close> and \<open>mutex.Unlock()\<close>; the statements
  after \<open>acceptedCount++\<close>; the statements of lines 168 to 174.
\<close>

fun in_critical :: "pc \<Rightarrow> bool" where
  "in_critical AtCheck = True"
| "in_critical RejUnlock = True"
| "in_critical AccInc = True"
| "in_critical AccUnlock = True"
| "in_critical OkInc = True"
| "in_critical OkUnlock = True"
| "in_critical _ = False"

fun admitted :: "pc \<Rightarrow> bool" where
  "admitted AtLock = False"
| "admitted AtCheck = False"
| "admitted RejUnlock = False"
| "admitted RejNack = False"
| "admitted RejCancel = False"
| "admitted Rejected = False"
| "admitted AccInc = False"
| "admitted _ = True"

fun on_reject_path :: "pc \<Rightarrow> bool" where
  "on_reject_path AtLock = True"
| "on_reject_path AtCheck = True"
| "on_reject_path RejUnlock = True"
| "on_reject_path RejNack = True"
| "on_reject_path RejCancel = True"
| "on_reject_path Rejected = True"
| "on_reject_path _ = False"

text \<open>
  The quantities of the spec's invariant that are not variables of the program,
  counted over the delivered messages.  \<open>publishedCount\<close> is the variable
  \<open>processedCount\<close>.  A message is in flight from its admission
  (\<open>acceptedCount++\<close>) until \<open>msg.Ack()\<close> or \<open>msg.Nack()\<close> is called on it;
  it is settled as failed once it was admitted and \<open>msg.Nack()\<close> was called on it.
  \<open>ackedNotCounted\<close> counts the messages between \<open>msg.Ack()\<close> (line 198) and
  \<open>processedCount++\<close> (line 200): they are acknowledged and not counted yet.
\<close>

definition inFlightCount :: "RelayState \<Rightarrow> int" where
  "inFlightCount s =
     countP (\<lambda>h. admitted (pc h) \<and> acks h = 0 \<and> nacks h = 0) (handlers s)"

definition failedCount :: "RelayState \<Rightarrow> int" where
  "failedCount s = countP (\<lambda>h. admitted (pc h) \<and> 0 < nacks h) (handlers s)"

definition ackedNotCounted :: "RelayState \<Rightarrow> int" where
  "ackedNotCounted s = countP (\<lambda>h. pc h = OkLock \<or> pc h = OkInc) (handlers s)"

text \<open>
  The events that are steps of the job's own goroutines or the passing of time: no
  delivery, no answer of the sink, no return of \<open>Receive\<close>.
\<close>

fun internal :: "event \<Rightarrow> bool" where
  "internal (Run m) = True"
| "internal SelectTimeout = True"
| "internal MainStep = True"
| "internal (Tick d) = True"
| "internal _ = False"

text \<open>
  The main goroutine alone, given time: ten minutes pass, the timeout branch of the
  \<open>select\<close> is taken if the main goroutine still stands there, two seconds pass,
  and the main goroutine runs to its \<open>return\<close>.
\<close>

definition wind_up :: "event list" where
  "wind_up = [Tick (10 * Minute), SelectTimeout, Tick shovel_grace,
              MainStep, MainStep, MainStep, MainStep, MainStep, MainStep]"

text \<open>
  The invariants: the two counters count the messages past their increments; the mutex
  is locked exactly when one goroutine stands between a lock and an unlock; a callback
  about to increment has \<open>acceptedCount < maxMessages\<close>, a callback about to reject
  has \<open>acceptedCount \<ge> maxMessages\<close>; the calls on a message are determined by where
  its goroutine stands; and the main goroutine's reads, with the deferred \<open>cancel()\<close>
  at its return, the clock and the end of the sleep.  \<open>inv_mutex\<close> has \<open>fatal\<close>
  false: no reachable state unlocks an unlocked mutex, so the program never meets the
  runtime's fatal error and what a step does after one is never used.
\<close>

fun mholds :: "mpc \<Rightarrow> bool" where
  "mholds MReadAccepted = True"
| "mholds MReadProcessed = True"
| "mholds MUnlock = True"
| "mholds _ = False"

fun handler_ok :: "handler \<Rightarrow> bool" where
  "handler_ok h =
     (acks h = (if pc h \<in> {OkLock, OkInc, OkUnlock, Published} then 1 else 0) \<and>
      nacks h = (if pc h \<in> {RejCancel, Rejected, Failed} then 1 else 0) \<and>
      forwards h = (if pc h \<in> {AtGet, FailNack, Failed, OkAck, OkLock, OkInc, OkUnlock, Published}
                    then 1 else 0) \<and>
      outcome h = (if pc h \<in> {OkAck, OkLock, OkInc, OkUnlock, Published} then Some True
                   else if pc h \<in> {FailNack, Failed} then Some False else None))"

definition inv_counts :: "RelayState \<Rightarrow> bool" where
  "inv_counts s =
     (acceptedCount s =
        num_at AccUnlock s + num_at AtPublish s + num_at AtGet s + num_at FailNack s +
        num_at Failed s + num_at OkAck s + num_at OkLock s + num_at OkInc s +
        num_at OkUnlock s + num_at Published s \<and>
      processedCount s = num_at OkUnlock s + num_at Published s)"

definition inv_mutex :: "RelayState \<Rightarrow> bool" where
  "inv_mutex s =
     (num_at AtCheck s + num_at RejUnlock s + num_at AccInc s + num_at AccUnlock s +
        num_at OkInc s + num_at OkUnlock s + (if mholds (mainpc s) then 1 else 0) =
        (if mutex s then 1 else 0) \<and>
      \<not> fatal s)"

definition inv_check :: "RelayState \<Rightarrow> bool" where
  "inv_check s =
     ((num_at AccInc s > 0 \<longrightarrow> acceptedCount s < maxMessages s) \<and>
      (num_at RejUnlock s > 0 \<longrightarrow> acceptedCount s \<ge> maxMessages s) \<and>
      (acceptedCount s \<le> maxMessages s \<or> acceptedCount s = 0))"

definition inv_acks :: "RelayState \<Rightarrow> bool" where
  "inv_acks s = list_all handler_ok (handlers s)"

definition inv_main :: "RelayState \<Rightarrow> bool" where
  "inv_main s =
     ((mainpc s \<in> {MReadProcessed, MUnlock} \<longrightarrow> finalAccepted s = acceptedCount s) \<and>
      (mainpc s = MUnlock \<longrightarrow> finalProcessed s = processedCount s) \<and>
      (mainpc s \<in> {MReturn, MDone} \<longrightarrow>
         finalProcessed s \<le> finalAccepted s \<and> finalAccepted s \<le> acceptedCount s \<and>
         finalProcessed s \<le> processedCount s \<and> 0 \<le> finalProcessed s) \<and>
      ret s = (if mainpc s = MDone then Some (finalProcessed s, None) else None) \<and>
      (mainpc s = MDone \<longrightarrow> cancelled s) \<and>
      0 \<le> clock s \<and>
      (mainpc s = MSleep \<longrightarrow> wake s \<le> clock s + shovel_grace))"

definition inv :: "RelayState \<Rightarrow> bool" where
  "inv s = (inv_counts s \<and> inv_mutex s \<and> inv_check s \<and> inv_acks s \<and> inv_main s)"


text \<open>
  The callback of message \<open>m\<close> runs while \<open>acceptedCount\<close> has reached
  \<open>maxMessages\<close>: it is on the path of lines 168 to 174.
\<close>

definition rejecting :: "nat \<Rightarrow> RelayState \<Rightarrow> bool" where
  "rejecting m s =
     (m < length (handlers s) \<and> maxMessages s \<le> acceptedCount s \<and>
      on_reject_path (pc (handlers s ! m)) \<and>
      (pc (handlers s ! m) = Rejected \<longrightarrow> cancelled s))"


text \<open>What package \<open>main\<close> has returned, if it has.\<close>

definition main_inv :: "MainState \<Rightarrow> bool" where
  "main_inv s =
     (0 \<le> main_processedCount s \<and>
      (case main_ret s of
         None \<Rightarrow> ppc s \<noteq> PDone
       | Some r \<Rightarrow>
           ppc s = PDone \<and> 0 \<le> fst r \<and> fst r \<le> main_processedCount s \<and>
           snd r = main_returnError (main_err s)))"

section \<open>Concrete requests and schedules\<close>

definition request_one :: ShovelRequest where
  "request_one =
     \<lparr>NumMessages = 1, AllMessages = False,
      SourceSubscription = ''projects/p/subscriptions/s'',
      TargetTopic = ''projects/p/topics/t''\<rparr>"

definition request_all :: ShovelRequest where
  "request_all =
     \<lparr>NumMessages = 0, AllMessages = True,
      SourceSubscription = ''projects/p/subscriptions/s'',
      TargetTopic = ''projects/p/topics/t''\<rparr>"

text \<open>
  Two messages are delivered; the callback of the first has taken the mutex and passed
  the check of line 170, and has not yet incremented.
\<close>

definition race_schedule :: "event list" where
  "race_schedule = [Deliver, Deliver, Run 0, Run 0]"

text \<open>One message is delivered, admitted, forwarded and acknowledged.\<close>

definition serve :: "nat \<Rightarrow> event list" where
  "serve m = [Deliver, Run m, Run m, Run m, Run m, Run m, Got m True,
              Run m, Run m, Run m, Run m]"

text \<open>
  One message is delivered and admitted (\<open>admit_one\<close> ends in the wait for the
  publish result), its forward fails, and it is negatively acknowledged;
  \<open>fail_before_nack\<close> stops before the \<open>msg.Nack()\<close> of line 194.
\<close>

definition admit_one :: "event list" where
  "admit_one = [Deliver, Run 0, Run 0, Run 0, Run 0, Run 0]"

definition fail_before_nack :: "event list" where
  "fail_before_nack = admit_one @ [Got 0 False]"

definition fail_one :: "event list" where
  "fail_one = fail_before_nack @ [Run 0]"

text \<open>
  One message is delivered and admitted, its forward succeeds, and \<open>msg.Ack()\<close> of
  line 198 was called: the goroutine stands before \<open>mutex.Lock()\<close> of line 199.
\<close>

definition acked_not_counted :: "event list" where
  "acked_not_counted = admit_one @ [Got 0 True, Run 0]"

text \<open>
  One message is delivered and admitted and its publish result stays outstanding; the
  timeout of a bounded job elapses, the main goroutine takes the timeout branch, sleeps
  two seconds, reads the counters and returns.
\<close>

definition returned_while_waiting :: "event list" where
  "returned_while_waiting =
     admit_one @ [Tick 300000000000, SelectTimeout, Tick 2000000000,
                  MainStep, MainStep, MainStep, MainStep, MainStep, MainStep]"

text \<open>
  After that return the goroutine of the message runs on: \<open>result.Get(ctx)\<close>
  returns the error of the cancelled context and \<open>msg.Nack()\<close> is called.
\<close>

definition nacked_after_return :: "event list" where
  "nacked_after_return = returned_while_waiting @ [Run 0, Run 0]"

text \<open>
  Package \<open>main\<close>: one message is delivered, its callback runs to its end (the
  deferred \<open>msg.Ack()\<close> included), then the goroutine publishes and the publish
  fails.
\<close>

definition main_fail_one :: "main_event list" where
  "main_fail_one =
     [MDeliver, MRun 0, MRun 0, MRun 0, MRun 0, MRun 0, MRun 0, MRun 0, MRun 0,
      MGo 0, MGot 0 False]"

text \<open>
  Package \<open>main\<close>, two messages delivered together: both callbacks pass the
  \<open>select\<close> of line 161 while \<open>done\<close> is empty and start their goroutines; both
  publishes succeed and both goroutines count; then both callbacks run to their end,
  \<open>Receive\<close> returns and \<open>processMessages\<close> returns.
\<close>

definition main_two_together :: "main_event list" where
  "main_two_together =
     [MDeliver, MDeliver,
      MRun 0, MRun 0, MRun 0, MRun 1, MRun 1, MRun 1,
      MGo 0, MGo 1, MGot 0 True, MGot 1 True,
      MGo 0, MGo 0, MGo 0, MGo 0, MGo 0,
      MGo 1, MGo 1, MGo 1, MGo 1, MGo 1,
      MRun 0, MRun 0, MRun 0, MRun 0, MRun 0,
      MRun 1, MRun 1, MRun 1, MRun 1, MRun 1,
      MReceiveReturns None, MMain, MMain]"

text \<open>
  Package \<open>main\<close>, one message relayed to its end, so that \<open>processedCount\<close> has
  reached the target and \<open>done\<close> holds a value; then a second message is delivered
  and its callback runs: the \<open>select\<close> of line 161 takes the \<open>done\<close> branch and
  returns, and the deferred \<open>msg.Ack()\<close> of line 158 runs.
\<close>

definition main_one_relayed :: "main_event list" where
  "main_one_relayed =
     [MDeliver, MRun 0, MRun 0, MRun 0, MGo 0, MGot 0 True,
      MGo 0, MGo 0, MGo 0, MGo 0, MGo 0,
      MRun 0, MRun 0, MRun 0, MRun 0, MRun 0]"

definition main_late_message :: "main_event list" where
  "main_late_message = main_one_relayed @ [MDeliver, MRun 1, MRun 1]"

text \<open>
  The first \<open>n\<close> messages are served one after the other, and the state this leads
  to while \<open>n\<close> does not exceed \<open>maxMessages\<close>.
\<close>

primrec serve_all :: "nat \<Rightarrow> event list" where
  "serve_all 0 = []"
| "serve_all (Suc n) = serve_all n @ serve n"

definition served :: "ShovelRequest \<Rightarrow> nat \<Rightarrow> RelayState" where
  "served req n =
     (shovel_init req)
       \<lparr>acceptedCount := int n, processedCount := int n,
        handlers := replicate n
          \<lparr>pc = Published, acks = 1, nacks = 0, forwards = 1, outcome = Some True\<rparr>\<rparr>"

text \<open>
  An environment in which the client is created and the target topic exists; a
  schedule of package \<open>shovel\<close> in which one message is relayed, then
  \<open>Receive\<close> returns an error, and the main goroutine takes the \<open>done\<close> branch,
  sleeps two seconds, reads the counters and returns; and the statements of the main
  goroutine alone.
\<close>

definition ok_env :: Env where
  "ok_env = \<lparr>newClient = (\<lambda>project. None), topicExists = (\<lambda>topic. Inr True)\<rparr>"

definition finish :: "event list" where
  "finish = [SelectDone, Tick 2000000000, MainStep, MainStep, MainStep, MainStep,
             MainStep, MainStep]"

definition receive_fails :: "event list" where
  "receive_fails = serve 0 @ [ReceiveReturns (Some (Failure ''connection lost''))] @ finish"

text \<open>Environments in which a precondition fails.\<close>

definition no_client :: Env where
  "no_client = \<lparr>newClient = (\<lambda>project. Some (Failure ''no credentials'')),
                topicExists = (\<lambda>topic. Inr True)\<rparr>"

definition no_topic :: Env where
  "no_topic = \<lparr>newClient = (\<lambda>project. None), topicExists = (\<lambda>topic. Inr False)\<rparr>"

text \<open>
  Package \<open>main\<close>: \<open>Receive\<close> returns \<open>context.Canceled\<close>, or another error,
  before any message was delivered, and \<open>processMessages\<close> returns.
\<close>

definition main_receive_canceled :: "main_event list" where
  "main_receive_canceled = [MReceiveReturns (Some Canceled), MMain, MMain]"

definition main_receive_fails :: "main_event list" where
  "main_receive_fails = [MReceiveReturns (Some (Failure ''connection lost'')), MMain, MMain]"

text \<open>
  Package \<open>main\<close>: a message is delivered and its callback returns, \<open>Receive\<close>
  returns, an hour passes and the publish result is still outstanding.
\<close>

definition main_still_waiting :: "main_event list" where
  "main_still_waiting =
     [MDeliver, MRun 0, MRun 0, MRun 0, MRun 0, MRun 0, MRun 0, MRun 0, MRun 0, MGo 0,
      MReceiveReturns None, MTick 3600000000000, MDeadline, MMain]"

section \<open>Validation\<close>

text \<open>
  Claim C9.  In both packages \<open>validateRequest\<close> returns an error if and only if
  the source subscription is empty, or the target topic is empty, or
  \<open>allMessages\<close> is false with \<open>numMessages \<le> 0\<close>, or \<open>allMessages\<close> is true
  with \<open>numMessages > 0\<close>; a request with \<open>allMessages = true\<close>, both names
  given and a negative \<open>numMessages\<close> passes validation.
\<close>

theorem validateRequest_error_iff:
  "(shovel_validateRequest req \<noteq> None \<longleftrightarrow>
      SourceSubscription req = [] \<or> TargetTopic req = [] \<or>
      (AllMessages req = False \<and> NumMessages req \<le> 0) \<or>
      (AllMessages req = True \<and> NumMessages req > 0)) \<and>
   (main_validateRequest req \<noteq> None \<longleftrightarrow>
      SourceSubscription req = [] \<or> TargetTopic req = [] \<or>
      (AllMessages req = False \<and> NumMessages req \<le> 0) \<or>
      (AllMessages req = True \<and> NumMessages req > 0)) \<and>
   (AllMessages req \<and> NumMessages req < 0 \<and> SourceSubscription req \<noteq> [] \<and>
      TargetTopic req \<noteq> [] \<longrightarrow>
    shovel_validateRequest req = None \<and> main_validateRequest req = None)"
  by (simp add: shovel_validateRequest_def main_validateRequest_def)

theorem validateRequest_error_iff_witness:
  "shovel_validateRequest
     \<lparr>NumMessages = - 1, AllMessages = True,
      SourceSubscription = ''projects/p/subscriptions/s'',
      TargetTopic = ''projects/p/topics/t''\<rparr> = None \<and>
   main_validateRequest
     \<lparr>NumMessages = - 1, AllMessages = True,
      SourceSubscription = ''projects/p/subscriptions/s'',
      TargetTopic = ''projects/p/topics/t''\<rparr> = None \<and>
   shovel_validateRequest
     \<lparr>NumMessages = - 1, AllMessages = False,
      SourceSubscription = ''projects/p/subscriptions/s'',
      TargetTopic = ''projects/p/topics/t''\<rparr> \<noteq> None \<and>
   main_validateRequest
     \<lparr>NumMessages = 10, AllMessages = True,
      SourceSubscription = ''projects/p/subscriptions/s'',
      TargetTopic = ''projects/p/topics/t''\<rparr> \<noteq> None"
  using
    validateRequest_error_iff [of "\<lparr>NumMessages = - 1, AllMessages = True,
      SourceSubscription = ''projects/p/subscriptions/s'',
      TargetTopic = ''projects/p/topics/t''\<rparr>"]
    validateRequest_error_iff [of "\<lparr>NumMessages = - 1, AllMessages = False,
      SourceSubscription = ''projects/p/subscriptions/s'',
      TargetTopic = ''projects/p/topics/t''\<rparr>"]
    validateRequest_error_iff [of "\<lparr>NumMessages = 10, AllMessages = True,
      SourceSubscription = ''projects/p/subscriptions/s'',
      TargetTopic = ''projects/p/topics/t''\<rparr>"]
  by simp

section \<open>Resource names\<close>

lemma runeWidth_tail:
  "runeWidth b0 bs \<noteq> 0 \<Longrightarrow> c \<in> set (take (runeWidth b0 bs - 1) bs) \<Longrightarrow> continuation c"
  by (auto simp add: runeWidth_def Let_def split: list.splits if_splits)

lemma runeWidth_slash: "runeWidth CHR ''/'' bs = 1"
  by (simp add: runeWidth_def)

lemma continuation_slash: "\<not> continuation CHR ''/''"
  by (simp add: continuation_def)

text \<open>
  Every \<open>string(char)\<close> of the loop is non-empty, and is \<open>''/''\<close> or free of
  the byte \<open>/\<close>; the loop sees the rune \<open>'/'\<close> exactly when the name
  contains the byte \<open>/\<close>.
\<close>

lemma runes_each:
  "r \<in> set (runes s) \<Longrightarrow> r \<noteq> [] \<and> (r = ''/'' \<or> CHR ''/'' \<notin> set r)"
proof (induction s arbitrary: r rule: runes.induct)
  case 1
  then show ?case by simp
next
  case (2 b0 bs)
  show ?case
  proof (cases "runeWidth b0 bs = 0")
    case True
    with 2 show ?thesis
      by (auto simp add: RuneError_def)
  next
    case False
    show ?thesis
    proof (cases "r = b0 # take (runeWidth b0 bs - 1) bs")
      case hd: True
      show ?thesis
      proof (cases "b0 = CHR ''/''")
        case True
        then have "runeWidth b0 bs = 1" by (simp add: runeWidth_slash)
        with hd True show ?thesis by simp
      next
        case nb: False
        have "CHR ''/'' \<notin> set (take (runeWidth b0 bs - 1) bs)"
          using runeWidth_tail [OF False] continuation_slash by blast
        with hd nb show ?thesis by auto
      qed
    next
      case tl: False
      with 2 False show ?thesis by auto
    qed
  qed
qed

lemma runes_slash:
  "''/'' \<in> set (runes s) \<longleftrightarrow> CHR ''/'' \<in> set s"
proof (induction s rule: runes.induct)
  case 1
  then show ?case by simp
next
  case (2 b0 bs)
  show ?case
  proof (cases "runeWidth b0 bs = 0")
    case True
    then have "b0 \<noteq> CHR ''/''" using runeWidth_slash [of bs] by auto
    with 2 True show ?thesis by (auto simp add: RuneError_def)
  next
    case False
    let ?n = "runeWidth b0 bs - 1"
    have tk: "CHR ''/'' \<notin> set (take ?n bs)"
      using runeWidth_tail [OF False] continuation_slash by blast
    have "set bs = set (take ?n bs) \<union> set (drop ?n bs)"
      by (metis append_take_drop_id set_append)
    with tk have bs: "CHR ''/'' \<in> set bs \<longleftrightarrow> CHR ''/'' \<in> set (drop ?n bs)"
      by auto
    have hd: "b0 # take ?n bs = ''/'' \<longleftrightarrow> b0 = CHR ''/''"
      using runeWidth_slash [of bs] by auto
    from 2(2) [OF False] bs hd False show ?thesis
      by auto
  qed
qed

lemma runes_empty: "runes s = [] \<longleftrightarrow> s = []"
  by (cases s) auto

lemma reencoded_empty: "reencoded s = [] \<longleftrightarrow> s = []"
  using runes_each [of _ s] runes_empty [of s]
  by (cases "runes s") (auto simp add: reencoded_def)

lemma splitLoop_no_slash:
  "''/'' \<notin> set rs \<Longrightarrow>
   splitLoop rs result current =
     (if current @ concat rs \<noteq> [] then result @ [current @ concat rs] else result)"
  by (induction rs arbitrary: result current) auto

lemma splitLoop_parts:
  "(\<forall>p \<in> set result. CHR ''/'' \<notin> set p) \<Longrightarrow> CHR ''/'' \<notin> set current \<Longrightarrow>
   (\<forall>r \<in> set rs. r = ''/'' \<or> CHR ''/'' \<notin> set r) \<Longrightarrow>
   \<forall>p \<in> set (splitLoop rs result current). CHR ''/'' \<notin> set p"
  by (induction rs result current rule: splitLoop.induct) auto

lemma splitResourceName_no_slash:
  "CHR ''/'' \<notin> set s \<Longrightarrow>
   splitResourceName s = (if s = [] then [] else [reencoded s])"
  using reencoded_empty [of s]
  by (simp add: splitResourceName_def splitLoop_no_slash runes_slash reencoded_def)

lemma splitResourceName_parts:
  "p \<in> set (splitResourceName s) \<Longrightarrow> CHR ''/'' \<notin> set p"
  unfolding splitResourceName_def
  using splitLoop_parts [of "[]" "[]" "runes s"] runes_each [of _ s] by auto

text \<open>
  Claim C10, as stated: the two \<open>extractResourceName\<close> functions compute the same
  result for every input.  They do not: on \<open>topics/my-topic\<close> package \<open>main\<close>
  finds fewer than four segments and falls back to the whole input, while package
  \<open>shovel\<close> returns the last segment.
\<close>

theorem extractResourceName_differ:
  "main_extractResourceName ''topics/my-topic'' = ''topics/my-topic'' \<and>
   shovel_extractResourceName ''topics/my-topic'' = ''my-topic'' \<and>
   main_extractResourceName ''topics/my-topic'' \<noteq> shovel_extractResourceName ''topics/my-topic''"
  by (simp add: main_extractResourceName_def shovel_extractResourceName_def
      splitResourceName_def runeWidth_def)

text \<open>
  Claim C10, amended: the two \<open>extractResourceName\<close> functions return the same
  result exactly in two cases: the input contains no \<open>/\<close> and is valid UTF-8
  (rebuilding it from its runes gives the input back), or the input has at least four
  non-empty segments and its fourth segment and its last segment are equal strings (as
  in \<open>projects/P/topics/T\<close>, and also in \<open>a/b/c/d/e/d\<close>).  On every other
  input they differ.
\<close>

theorem extractResourceName_agree_iff:
  "main_extractResourceName s = shovel_extractResourceName s \<longleftrightarrow>
     ((CHR ''/'' \<notin> set s \<and> reencoded s = s) \<or>
      (length (splitResourceName s) \<ge> 4 \<and>
       splitResourceName s ! 3 = splitResourceName s ! (length (splitResourceName s) - 1)))"
proof (cases "CHR ''/'' \<in> set s")
  case False
  then show ?thesis
    by (auto simp add: main_extractResourceName_def shovel_extractResourceName_def
        splitResourceName_no_slash reencoded_empty)
next
  case True
  define parts where "parts = splitResourceName s"
  have m: "main_extractResourceName s = (if length parts \<ge> 4 then parts ! 3 else s)"
    by (simp add: main_extractResourceName_def parts_def Let_def)
  have sh: "shovel_extractResourceName s =
      (if length parts > 0 then parts ! (length parts - 1) else [])"
    by (simp add: shovel_extractResourceName_def parts_def Let_def)
  show ?thesis
  proof (cases "length parts \<ge> 4")
    case long: True
    then have pos: "length parts > 0" by arith
    have "main_extractResourceName s = parts ! 3"
      using long by (simp only: m if_True)
    moreover have "shovel_extractResourceName s = parts ! (length parts - 1)"
      using pos by (simp only: sh if_True)
    ultimately show ?thesis
      using long True unfolding parts_def by simp
  next
    case short: False
    have no: "CHR ''/'' \<notin> set (shovel_extractResourceName s)"
    proof (cases "length parts > 0")
      case False
      then have "shovel_extractResourceName s = []" by (simp only: sh if_False)
      then show ?thesis by simp
    next
      case pos: True
      then have "parts ! (length parts - 1) \<in> set parts"
        by simp
      then have "CHR ''/'' \<notin> set (parts ! (length parts - 1))"
        unfolding parts_def by (rule splitResourceName_parts)
      moreover have "shovel_extractResourceName s = parts ! (length parts - 1)"
        using pos by (simp only: sh if_True)
      ultimately show ?thesis by simp
    qed
    have "main_extractResourceName s = s"
      using short by (simp only: m if_False)
    with no True have "main_extractResourceName s \<noteq> shovel_extractResourceName s"
      by metis
    with short True show ?thesis
      unfolding parts_def by simp
  qed
qed

theorem extractResourceName_agree_iff_witness:
  "main_extractResourceName ''projects/p/topics/t'' =
     shovel_extractResourceName ''projects/p/topics/t'' \<and>
   main_extractResourceName ''projects/p/topics/t'' = ''t'' \<and>
   main_extractResourceName ''a/b/c/d/e/d'' = shovel_extractResourceName ''a/b/c/d/e/d'' \<and>
   main_extractResourceName ''my-topic'' = shovel_extractResourceName ''my-topic'' \<and>
   main_extractResourceName [CHR 0xFF] \<noteq> shovel_extractResourceName [CHR 0xFF] \<and>
   main_extractResourceName [CHR 0xFF] = [CHR 0xFF] \<and>
   shovel_extractResourceName [CHR 0xFF] = [CHR 0xEF, CHR 0xBF, CHR 0xBD]"
  using extractResourceName_agree_iff [of "''projects/p/topics/t''"]
    extractResourceName_agree_iff [of "''a/b/c/d/e/d''"]
    extractResourceName_agree_iff [of "''my-topic''"]
    extractResourceName_agree_iff [of "[CHR 0xFF]"]
  by (simp add: main_extractResourceName_def shovel_extractResourceName_def
      splitResourceName_def runeWidth_def RuneError_def reencoded_def)

section \<open>The invariants hold in every reachable state\<close>

lemma countP_nonneg: "0 \<le> countP P xs"
  by (simp add: countP_def)

lemma countP_append: "countP P (xs @ [x]) = countP P xs + (if P x then 1 else 0)"
  by (simp add: countP_def)

lemma countP_Cons: "countP P (x # xs) = (if P x then 1 else 0) + countP P xs"
  by (simp add: countP_def)

lemma countP_update:
  "m < length xs \<Longrightarrow>
   countP P (xs[m := y]) = countP P xs - (if P (xs ! m) then 1 else 0) + (if P y then 1 else 0)"
proof (induction xs arbitrary: m)
  case Nil
  then show ?case by simp
next
  case (Cons x xs)
  then show ?case by (cases m) (simp_all add: countP_Cons)
qed

lemma countP_pos: "m < length xs \<Longrightarrow> P (xs ! m) \<Longrightarrow> 1 \<le> countP P xs"
proof (induction xs arbitrary: m)
  case Nil
  then show ?case by simp
next
  case (Cons x xs)
  then show ?case
    using countP_nonneg [of P xs] by (cases m) (auto simp: countP_Cons)
qed

lemma num_at_nonneg: "0 \<le> num_at p s"
  by (simp add: num_at_def countP_nonneg)

lemma list_all_update: "list_all P xs \<Longrightarrow> P y \<Longrightarrow> list_all P (xs[m := y])"
  unfolding list_all_iff using set_update_subset_insert [of xs m y] by auto

lemma list_all_nth: "list_all P xs \<Longrightarrow> m < length xs \<Longrightarrow> P (xs ! m)"
  by (simp add: list_all_iff)

lemma inv_init: "inv (shovel_init req)"
  by (simp add: inv_def inv_counts_def inv_mutex_def inv_check_def inv_acks_def inv_main_def
      shovel_init_def num_at_def countP_def)

lemmas nn = num_at_nonneg [of AtCheck] num_at_nonneg [of RejUnlock] num_at_nonneg [of AccInc]
  num_at_nonneg [of AccUnlock] num_at_nonneg [of OkInc] num_at_nonneg [of OkUnlock]

lemmas callback_defs = callback_def goto_def nack_def ack_def publish_def unlock_def
  getReturns_def

lemma num_at_pos: "m < length (handlers s) \<Longrightarrow> 1 \<le> num_at (pc (handlers s ! m)) s"
  by (simp add: num_at_def countP_pos)

lemma counts_callback:
  assumes "inv_counts s" "inv_mutex s"
  shows "inv_counts (callback m s)"
proof (cases "m < length (handlers s)")
  case False
  with assms show ?thesis by (simp add: callback_def)
next
  case True
  show ?thesis
    using assms(1) True
    by (cases "pc (handlers s ! m)")
       (simp_all add: inv_counts_def callback_defs num_at_def countP_update)
qed

lemma mutex_callback:
  assumes "inv_mutex s"
  shows "inv_mutex (callback m s)"
proof (cases "m < length (handlers s)")
  case False
  with assms show ?thesis by (simp add: callback_def)
next
  case True
  show ?thesis
    using assms True num_at_pos [OF True] nn [of s]
    by (cases "pc (handlers s ! m)")
       (auto simp: inv_mutex_def callback_defs num_at_def countP_update split: if_splits)
qed

lemma check_callback:
  assumes "inv_check s" "inv_mutex s"
  shows "inv_check (callback m s)"
proof (cases "m < length (handlers s)")
  case False
  with assms show ?thesis by (simp add: callback_def)
next
  case True
  show ?thesis
    using assms True num_at_pos [OF True] nn [of s]
    by (cases "pc (handlers s ! m)")
       (auto simp: inv_check_def inv_mutex_def callback_defs num_at_def countP_update split: if_splits)
qed

lemma acks_callback:
  assumes "inv_acks s"
  shows "inv_acks (callback m s)"
proof (cases "m < length (handlers s)")
  case False
  with assms show ?thesis by (simp add: callback_def)
next
  case True
  have ok: "handler_ok (handlers s ! m)"
    using assms True by (simp add: inv_acks_def list_all_nth del: handler_ok.simps)
  show ?thesis
    using assms True ok
    by (cases "pc (handlers s ! m)")
       (auto simp: inv_acks_def callback_defs list_all_update)
qed


lemma processed_le_accepted:
  assumes "inv_counts s"
  shows "processedCount s \<le> acceptedCount s" and "0 \<le> processedCount s"
  using assms num_at_nonneg [of AccUnlock s] num_at_nonneg [of AtPublish s]
    num_at_nonneg [of AtGet s] num_at_nonneg [of FailNack s] num_at_nonneg [of Failed s]
    num_at_nonneg [of OkAck s] num_at_nonneg [of OkLock s] num_at_nonneg [of OkInc s]
    num_at_nonneg [of OkUnlock s] num_at_nonneg [of Published s]
  by (simp_all add: inv_counts_def)

lemma main_callback:
  assumes "inv_main s" "inv_mutex s" "inv_counts s"
  shows "inv_main (callback m s)"
proof (cases "m < length (handlers s)")
  case False
  with assms show ?thesis by (simp add: callback_def)
next
  case True
  show ?thesis
    using assms True num_at_pos [OF True] nn [of s]
    by (cases "pc (handlers s ! m)")
       (auto simp: inv_main_def inv_mutex_def callback_defs split: if_splits)
qed

lemma inv_callback: "inv s \<Longrightarrow> inv (callback m s)"
  by (simp add: inv_def counts_callback mutex_callback check_callback acks_callback main_callback)

lemma inv_got: "inv s \<Longrightarrow> inv (got m ok s)"
proof (cases "m < length (handlers s) \<and> pc (handlers s ! m) = AtGet")
  case False
  assume "inv s"
  with False show ?thesis by (auto simp add: got_def getReturns_def)
next
  case True
  assume a: "inv s"
  have ok: "handler_ok (handlers s ! m)"
    using a True by (simp add: inv_def inv_acks_def list_all_nth del: handler_ok.simps)
  have "inv_counts (got m ok s)"
    using a True by (simp add: inv_def inv_counts_def got_def getReturns_def goto_def num_at_def countP_update)
  moreover have "inv_mutex (got m ok s)"
    using a True by (auto simp: inv_def inv_mutex_def got_def getReturns_def goto_def num_at_def countP_update split: if_splits)
  moreover have "inv_check (got m ok s)"
    using a True by (simp add: inv_def inv_check_def got_def getReturns_def goto_def num_at_def countP_update)
  moreover have "inv_acks (got m ok s)"
    using a True ok by (simp add: inv_def inv_acks_def got_def getReturns_def goto_def list_all_update)
  moreover have "inv_main (got m ok s)"
    using a True by (simp add: inv_def inv_main_def got_def getReturns_def goto_def)
  ultimately show ?thesis by (simp add: inv_def)
qed

lemma inv_deliver: "inv s \<Longrightarrow> inv (deliver s)"
proof -
  assume a: "inv s"
  have "inv_counts (deliver s)"
    using a by (simp add: inv_def inv_counts_def deliver_def num_at_def countP_append)
  moreover have "inv_mutex (deliver s)"
    using a by (auto simp: inv_def inv_mutex_def deliver_def num_at_def countP_append split: if_splits)
  moreover have "inv_check (deliver s)"
    using a by (simp add: inv_def inv_check_def deliver_def num_at_def countP_append)
  moreover have "inv_acks (deliver s)"
    using a by (simp add: inv_def inv_acks_def deliver_def)
  moreover have "inv_main (deliver s)"
    using a by (simp add: inv_def inv_main_def deliver_def)
  ultimately show ?thesis by (simp add: inv_def)
qed

text \<open>Steps that touch neither the handlers nor the counters nor the mutex.\<close>

lemma inv_frame:
  assumes "inv s"
    and "handlers t = handlers s" "acceptedCount t = acceptedCount s"
    and "processedCount t = processedCount s" "mutex t = mutex s" "fatal t = fatal s"
    and "maxMessages t = maxMessages s" "mainpc t = mainpc s" "ret t = ret s"
    and "finalAccepted t = finalAccepted s" "finalProcessed t = finalProcessed s"
    and "cancelled t = cancelled s" "clock t = clock s" "wake t = wake s"
  shows "inv t"
proof -
  have "inv_counts t"
    using assms by (simp add: inv_def inv_counts_def num_at_def)
  moreover have "inv_mutex t"
    using assms by (auto simp: inv_def inv_mutex_def num_at_def split: if_splits)
  moreover have "inv_check t"
    using assms by (simp add: inv_def inv_check_def num_at_def)
  moreover have "inv_acks t"
    using assms by (simp add: inv_def inv_acks_def)
  moreover have "inv_main t"
    using assms by (simp add: inv_def inv_main_def)
  ultimately show ?thesis by (simp add: inv_def)
qed

lemma inv_receiveReturns: "inv s \<Longrightarrow> inv (receiveReturns e s)"
  by (rule inv_frame [of s]) (simp_all add: receiveReturns_def)

lemma inv_tick: "inv s \<Longrightarrow> inv (step (Tick d) s)"
proof -
  assume a: "inv s"
  have "inv_counts (step (Tick d) s)"
    using a by (simp add: inv_def inv_counts_def num_at_def)
  moreover have "inv_mutex (step (Tick d) s)"
    using a by (auto simp: inv_def inv_mutex_def num_at_def split: if_splits)
  moreover have "inv_check (step (Tick d) s)"
    using a by (simp add: inv_def inv_check_def num_at_def)
  moreover have "inv_acks (step (Tick d) s)"
    using a by (simp add: inv_def inv_acks_def)
  moreover have "inv_main (step (Tick d) s)"
    using a by (auto simp: inv_def inv_main_def)
  ultimately show ?thesis by (simp add: inv_def)
qed

lemma inv_selectDone: "inv s \<Longrightarrow> inv (selectDone s)"
proof -
  assume a: "inv s"
  have "inv_counts (selectDone s)"
    using a by (simp add: inv_def inv_counts_def selectDone_def num_at_def)
  moreover have "inv_mutex (selectDone s)"
    using a by (auto simp: inv_def inv_mutex_def selectDone_def num_at_def split: if_splits)
  moreover have "inv_check (selectDone s)"
    using a by (simp add: inv_def inv_check_def selectDone_def num_at_def)
  moreover have "inv_acks (selectDone s)"
    using a by (simp add: inv_def inv_acks_def selectDone_def)
  moreover have "inv_main (selectDone s)"
    using a by (simp add: inv_def inv_main_def selectDone_def)
  ultimately show ?thesis by (simp add: inv_def)
qed

lemma inv_selectTimeout: "inv s \<Longrightarrow> inv (selectTimeout s)"
proof -
  assume a: "inv s"
  have "inv_counts (selectTimeout s)"
    using a by (simp add: inv_def inv_counts_def selectTimeout_def num_at_def)
  moreover have "inv_mutex (selectTimeout s)"
    using a by (auto simp: inv_def inv_mutex_def selectTimeout_def num_at_def split: if_splits)
  moreover have "inv_check (selectTimeout s)"
    using a by (simp add: inv_def inv_check_def selectTimeout_def num_at_def)
  moreover have "inv_acks (selectTimeout s)"
    using a by (simp add: inv_def inv_acks_def selectTimeout_def)
  moreover have "inv_main (selectTimeout s)"
    using a by (simp add: inv_def inv_main_def selectTimeout_def)
  ultimately show ?thesis by (simp add: inv_def)
qed

lemma inv_mainStep: "inv s \<Longrightarrow> inv (mainStep s)"
proof -
  assume a: "inv s"
  have "inv_counts (mainStep s)"
    using a by (cases "mainpc s")
      (simp_all add: inv_def inv_counts_def mainStep_def unlock_def num_at_def)
  moreover have "inv_mutex (mainStep s)"
    using a nn [of s] by (cases "mainpc s")
      (auto simp: inv_def inv_mutex_def mainStep_def unlock_def num_at_def split: if_splits)
  moreover have "inv_check (mainStep s)"
    using a by (cases "mainpc s")
      (simp_all add: inv_def inv_check_def mainStep_def unlock_def num_at_def)
  moreover have "inv_acks (mainStep s)"
    using a by (cases "mainpc s")
      (simp_all add: inv_def inv_acks_def mainStep_def unlock_def)
  moreover have "inv_main (mainStep s)"
    using a processed_le_accepted [of s] by (cases "mainpc s")
      (auto simp: inv_def inv_main_def mainStep_def unlock_def)
  ultimately show ?thesis by (simp add: inv_def)
qed

lemma inv_step: "inv s \<Longrightarrow> inv (step e s)"
  by (cases e)
     (simp_all add: inv_callback inv_got inv_deliver inv_receiveReturns inv_selectDone
      inv_selectTimeout inv_mainStep inv_tick del: step.simps(8))

lemma inv_run: "inv s \<Longrightarrow> inv (run es s)"
  by (induction es arbitrary: s) (simp_all add: inv_step del: step.simps)

lemma inv_reachable: "inv (run es (shovel_init req))"
  by (simp add: inv_run inv_init)

section \<open>What a single step changes\<close>

lemma accepted_callback:
  "acceptedCount (callback m s) =
     (if m < length (handlers s) \<and> pc (handlers s ! m) = AccInc
      then acceptedCount s + 1 else acceptedCount s)"
  by (simp add: callback_defs split: pc.splits)

lemma processed_callback:
  "processedCount (callback m s) =
     (if m < length (handlers s) \<and> pc (handlers s ! m) = OkInc
      then processedCount s + 1 else processedCount s)"
  by (simp add: callback_defs split: pc.splits)

lemma accepted_step:
  "acceptedCount (step e s) =
     (if \<exists>m. e = Run m \<and> m < length (handlers s) \<and> pc (handlers s ! m) = AccInc
      then acceptedCount s + 1 else acceptedCount s)"
  by (cases e)
     (simp_all add: accepted_callback got_def getReturns_def goto_def deliver_def receiveReturns_def
      selectDone_def selectTimeout_def mainStep_def unlock_def split: mpc.splits)

lemma processed_step:
  "processedCount (step e s) =
     (if \<exists>m. e = Run m \<and> m < length (handlers s) \<and> pc (handlers s ! m) = OkInc
      then processedCount s + 1 else processedCount s)"
  by (cases e)
     (simp_all add: processed_callback got_def getReturns_def goto_def deliver_def receiveReturns_def
      selectDone_def selectTimeout_def mainStep_def unlock_def split: mpc.splits)

lemma maxMessages_step: "maxMessages (step e s) = maxMessages s"
  by (cases e)
     (simp_all add: callback_defs got_def getReturns_def deliver_def receiveReturns_def
      selectDone_def selectTimeout_def mainStep_def split: mpc.splits pc.splits)

lemma maxMessages_run: "maxMessages (run es s) = maxMessages s"
  by (induction es arbitrary: s) (simp_all add: maxMessages_step del: step.simps)

lemma accepted_mono_run: "acceptedCount s \<le> acceptedCount (run es s)"
proof (induction es arbitrary: s)
  case Nil
  show ?case by simp
next
  case (Cons e es)
  have "acceptedCount s \<le> acceptedCount (step e s)"
    by (simp add: accepted_step del: step.simps)
  also have "\<dots> \<le> acceptedCount (run es (step e s))" by (rule Cons.IH)
  finally show ?case by simp
qed

lemma processed_mono_run: "processedCount s \<le> processedCount (run es s)"
proof (induction es arbitrary: s)
  case Nil
  show ?case by simp
next
  case (Cons e es)
  have "processedCount s \<le> processedCount (step e s)"
    by (simp add: processed_step del: step.simps)
  also have "\<dots> \<le> processedCount (run es (step e s))" by (rule Cons.IH)
  finally show ?case by simp
qed

lemma length_handlers_step: "length (handlers s) \<le> length (handlers (step e s))"
  by (cases e)
     (simp_all add: callback_defs got_def getReturns_def goto_def deliver_def receiveReturns_def
      selectDone_def selectTimeout_def mainStep_def split: mpc.splits pc.splits)

lemma handler_other_callback:
  "m' \<noteq> m \<Longrightarrow> handlers (callback m' s) ! m = handlers s ! m"
  by (simp add: callback_defs split: pc.splits)

lemma handler_other_step:
  "m < length (handlers s) \<Longrightarrow> e \<noteq> Run m \<Longrightarrow> \<forall>ok. e \<noteq> Got m ok \<Longrightarrow>
   handlers (step e s) ! m = handlers s ! m"
  by (cases e)
     (auto simp: handler_other_callback got_def getReturns_def goto_def deliver_def receiveReturns_def
      selectDone_def selectTimeout_def mainStep_def unlock_def nth_append split: mpc.splits)

lemma run_append: "run (xs @ ys) s = run ys (run xs s)"
  by (induction xs arbitrary: s) simp_all

lemma timeout_step: "timeout (step e s) = timeout s"
  by (cases e)
     (simp_all add: callback_defs got_def getReturns_def deliver_def receiveReturns_def
      selectDone_def selectTimeout_def mainStep_def split: mpc.splits pc.splits)

lemma timeout_run: "timeout (run es s) = timeout s"
  by (induction es arbitrary: s) (simp_all add: timeout_step del: step.simps)

lemma timeout_reachable: "timeout (run sched (shovel_init req)) = shovel_timeout req"
  by (simp add: timeout_run shovel_init_def)

text \<open>The definitions that evaluate a schedule on a concrete request.\<close>

lemmas shovel_eval = request_one_def shovel_init_def shovel_maxMessages_def
  shovel_timeout_def callback_defs deliver_def got_def

lemmas main_eval = request_one_def main_init_def main_callback_def main_goroutine_def
  main_got_def main_deliver_def hgoto_def ggoto_def mu_unlock_def wg_done_def
  signal_done_def Let_def

section \<open>Mutual exclusion\<close>

lemma countP_two:
  "m < length xs \<Longrightarrow> m' < length xs \<Longrightarrow> m \<noteq> m' \<Longrightarrow> P (xs ! m) \<Longrightarrow> P (xs ! m') \<Longrightarrow>
   2 \<le> countP P xs"
proof (induction xs arbitrary: m m')
  case Nil
  then show ?case by simp
next
  case (Cons x xs)
  show ?case
  proof (cases m)
    case 0
    with Cons.prems obtain k where k: "m' = Suc k" by (cases m') auto
    with Cons.prems 0 have "1 \<le> countP P xs" by (simp add: countP_pos)
    with Cons.prems 0 show ?thesis by (simp add: countP_Cons)
  next
    case (Suc j)
    show ?thesis
    proof (cases m')
      case 0
      with Cons.prems Suc have "1 \<le> countP P xs" by (simp add: countP_pos)
      with Cons.prems 0 show ?thesis by (simp add: countP_Cons)
    next
      case (Suc k)
      with Cons.prems \<open>m = Suc j\<close> have "2 \<le> countP P xs"
        using Cons.IH [of j k] by simp
      then show ?thesis by (simp add: countP_Cons)
    qed
  qed
qed

lemma countP_critical:
  "countP (\<lambda>h. in_critical (pc h)) hs =
     countP (\<lambda>h. pc h = AtCheck) hs + countP (\<lambda>h. pc h = RejUnlock) hs +
     countP (\<lambda>h. pc h = AccInc) hs + countP (\<lambda>h. pc h = AccUnlock) hs +
     countP (\<lambda>h. pc h = OkInc) hs + countP (\<lambda>h. pc h = OkUnlock) hs"
proof (induction hs)
  case Nil
  show ?case by (simp add: countP_def)
next
  case (Cons h hs)
  then show ?case by (cases "pc h") (simp_all add: countP_Cons)
qed

lemma critical_le_one:
  "inv_mutex s \<Longrightarrow> countP (\<lambda>h. in_critical (pc h)) (handlers s) \<le> 1"
  by (auto simp: inv_mutex_def countP_critical num_at_def split: if_splits)

lemma critical_excludes_main:
  "inv_mutex s \<Longrightarrow> m < length (handlers s) \<Longrightarrow> in_critical (pc (handlers s ! m)) \<Longrightarrow>
   mutex s \<and> \<not> mholds (mainpc s)"
  using countP_pos [of m "handlers s" "\<lambda>h. in_critical (pc h)"]
  by (auto simp: inv_mutex_def countP_critical num_at_def split: if_splits)

lemma critical_unique:
  assumes "inv_mutex s" "m < length (handlers s)" "m' < length (handlers s)" "m \<noteq> m'"
    and "in_critical (pc (handlers s ! m))"
  shows "\<not> in_critical (pc (handlers s ! m'))"
proof
  assume "in_critical (pc (handlers s ! m'))"
  with assms have "2 \<le> countP (\<lambda>h. in_critical (pc h)) (handlers s)"
    by (intro countP_two [of m _ m']) simp_all
  with critical_le_one [OF assms(1)] show False by simp
qed

lemma accepted_frozen:
  assumes "inv_mutex s" "m < length (handlers s)" "in_critical (pc (handlers s ! m))"
    and "e \<noteq> Run m"
  shows "acceptedCount (step e s) = acceptedCount s"
proof -
  have "\<not> (\<exists>m'. e = Run m' \<and> m' < length (handlers s) \<and> pc (handlers s ! m') = AccInc)"
  proof
    assume "\<exists>m'. e = Run m' \<and> m' < length (handlers s) \<and> pc (handlers s ! m') = AccInc"
    then obtain m' where m': "e = Run m'" "m' < length (handlers s)"
      "pc (handlers s ! m') = AccInc" by blast
    with assms have "m \<noteq> m'" by auto
    from critical_unique [OF assms(1,2) m'(2) this assms(3)] m'(3) show False by simp
  qed
  then show ?thesis by (simp add: accepted_step del: step.simps)
qed

section \<open>Admission\<close>

lemma countP_admitted:
  "countP (\<lambda>h. admitted (pc h)) hs =
     countP (\<lambda>h. pc h = AccUnlock) hs + countP (\<lambda>h. pc h = AtPublish) hs +
     countP (\<lambda>h. pc h = AtGet) hs + countP (\<lambda>h. pc h = FailNack) hs +
     countP (\<lambda>h. pc h = Failed) hs + countP (\<lambda>h. pc h = OkAck) hs +
     countP (\<lambda>h. pc h = OkLock) hs + countP (\<lambda>h. pc h = OkInc) hs +
     countP (\<lambda>h. pc h = OkUnlock) hs + countP (\<lambda>h. pc h = Published) hs"
proof (induction hs)
  case Nil
  show ?case by (simp add: countP_def)
next
  case (Cons h hs)
  then show ?case by (cases "pc h") (simp_all add: countP_Cons)
qed

lemma accepted_is_admitted:
  "inv_counts s \<Longrightarrow> acceptedCount s = countP (\<lambda>h. admitted (pc h)) (handlers s)"
  by (simp add: inv_counts_def countP_admitted num_at_def)

lemma bounded_maxMessages:
  "shovel_validateRequest req = None \<Longrightarrow> \<not> AllMessages req \<Longrightarrow>
   maxMessages (run sched (shovel_init req)) = NumMessages req \<and> 0 < NumMessages req"
  by (simp add: maxMessages_run shovel_init_def shovel_maxMessages_def
      shovel_validateRequest_def split: if_splits)

lemma accepted_le_max:
  "inv_check s \<Longrightarrow> 0 \<le> maxMessages s \<Longrightarrow> acceptedCount s \<le> maxMessages s"
  by (auto simp: inv_check_def)

lemma check_step:
  "m < length (handlers s) \<Longrightarrow> pc (handlers s ! m) = AtCheck \<Longrightarrow>
   pc (handlers (step (Run m) s) ! m) =
     (if acceptedCount s < maxMessages s then AccInc else RejUnlock)"
  by (simp add: callback_defs)

lemma AccInc_below_max:
  "inv_check s \<Longrightarrow> m < length (handlers s) \<Longrightarrow> pc (handlers s ! m) = AccInc \<Longrightarrow>
   acceptedCount s < maxMessages s"
  using num_at_pos [of m s] by (simp add: inv_check_def)

text \<open>
  Package \<open>shovel\<close> does what claim C1 says.  In a bounded job with target
  \<open>N\<close> (a validated request with
  \<open>allMessages = false\<close> and \<open>numMessages = N\<close>), in every state that any
  interleaving of deliveries, callback statements, publish results, timer and main
  goroutine steps can reach: \<open>acceptedCount \<le> N\<close>, and \<open>acceptedCount\<close> is the
  number of admitted messages; the check of line 170 sends a callback to the increment
  exactly when \<open>acceptedCount < N\<close>; when the callback increments, the value it
  increments is still below \<open>N\<close>; and while a callback is between
  \<open>mutex.Lock()\<close> and \<open>mutex.Unlock()\<close> no step of anyone else changes
  \<open>acceptedCount\<close>, so check and increment are one atomic step.
\<close>

theorem admission_is_atomic:
  assumes "shovel_validateRequest req = None" and "\<not> AllMessages req"
    and "s = run sched (shovel_init req)"
  shows "acceptedCount s \<le> NumMessages req \<and>
     acceptedCount s = countP (\<lambda>h. admitted (pc h)) (handlers s) \<and>
     (\<forall>m < length (handlers s).
        (pc (handlers s ! m) = AtCheck \<longrightarrow>
           pc (handlers (step (Run m) s) ! m) =
             (if acceptedCount s < NumMessages req then AccInc else RejUnlock)) \<and>
        (pc (handlers s ! m) = AccInc \<longrightarrow>
           acceptedCount s < NumMessages req \<and>
           acceptedCount (step (Run m) s) = acceptedCount s + 1) \<and>
        (in_critical (pc (handlers s ! m)) \<longrightarrow>
           (\<forall>e. e \<noteq> Run m \<longrightarrow> acceptedCount (step e s) = acceptedCount s)))"
proof -
  have i: "inv s" unfolding assms(3) by (rule inv_reachable)
  have mx: "maxMessages s = NumMessages req" "0 < NumMessages req"
    using bounded_maxMessages [OF assms(1,2), of sched] by (simp_all add: assms(3))
  have "acceptedCount s \<le> NumMessages req"
    using accepted_le_max [of s] i mx by (simp add: inv_def)
  moreover have "acceptedCount s = countP (\<lambda>h. admitted (pc h)) (handlers s)"
    using i by (simp add: inv_def accepted_is_admitted)
  moreover have "pc (handlers (step (Run m) s) ! m) =
      (if acceptedCount s < NumMessages req then AccInc else RejUnlock)"
    if "m < length (handlers s)" "pc (handlers s ! m) = AtCheck" for m
    using check_step [OF that] mx by simp
  moreover have "acceptedCount s < NumMessages req \<and>
      acceptedCount (step (Run m) s) = acceptedCount s + 1"
    if "m < length (handlers s)" "pc (handlers s ! m) = AccInc" for m
    using AccInc_below_max [of s m] that i mx
    by (simp add: inv_def accepted_callback)
  moreover have "acceptedCount (step e s) = acceptedCount s"
    if "m < length (handlers s)" "in_critical (pc (handlers s ! m))" "e \<noteq> Run m" for m e
    using accepted_frozen [of s m e] that i by (simp add: inv_def)
  ultimately show ?thesis by blast
qed

lemma race_state:
  "pc (handlers (run race_schedule (shovel_init request_one)) ! 0) = AccInc"
  "pc (handlers (run race_schedule (shovel_init request_one)) ! 1) = AtLock"
  "length (handlers (run race_schedule (shovel_init request_one))) = 2"
  "acceptedCount (run race_schedule (shovel_init request_one)) = 0"
  by (simp_all add: race_schedule_def request_one_def shovel_init_def shovel_maxMessages_def
      shovel_timeout_def callback_defs deliver_def)

theorem admission_is_atomic_witness:
  "shovel_validateRequest request_one = None \<and> \<not> AllMessages request_one \<and>
   pc (handlers (run race_schedule (shovel_init request_one)) ! 0) = AccInc \<and>
   acceptedCount (run race_schedule (shovel_init request_one)) < NumMessages request_one \<and>
   acceptedCount (step (Run 0) (run race_schedule (shovel_init request_one))) = 1 \<and>
   acceptedCount (step (Run 1) (run race_schedule (shovel_init request_one))) = 0 \<and>
   acceptedCount (step Deliver (run race_schedule (shovel_init request_one))) = 0"
proof -
  have v: "shovel_validateRequest request_one = None" "\<not> AllMessages request_one"
    by (simp_all add: request_one_def shovel_validateRequest_def)
  note a = admission_is_atomic [OF v refl, of race_schedule]
  have c: "in_critical (pc (handlers (run race_schedule (shovel_init request_one)) ! 0))"
    by (simp add: race_state)
  from a race_state c v show ?thesis
    by (metis One_nat_def Suc_1 event.distinct(1) event.inject(1) add_0 lessI zero_less_Suc zero_neq_one)
qed

text \<open>
  Claim C1 has every bounded job admit by an atomic check-and-increment, so that no
  more than the target \<open>N\<close> are ever admitted.  \<open>processMessages\<close> of package
  \<open>main\<close> does not: its callback admits every message that finds the channel
  \<open>done\<close> empty (lines 161 to 165), and \<open>done\<close> is filled only once
  \<open>processedCount\<close>, the number of messages already published, has reached \<open>N\<close>
  (lines 191 and 204).  With target 1 and two messages delivered together, both are
  admitted and forwarded, \<open>processedCount\<close> becomes 2, and the job returns 2.
\<close>

theorem main_admits_beyond_target:
  "main_validateRequest request_one = None \<and> \<not> AllMessages request_one \<and>
   NumMessages request_one = 1 \<and>
   main_forwards (main_handlers
     (main_run request_one main_two_together (main_init request_one)) ! 0) = 1 \<and>
   main_forwards (main_handlers
     (main_run request_one main_two_together (main_init request_one)) ! 1) = 1 \<and>
   main_outcome (main_handlers
     (main_run request_one main_two_together (main_init request_one)) ! 0) = Some True \<and>
   main_outcome (main_handlers
     (main_run request_one main_two_together (main_init request_one)) ! 1) = Some True \<and>
   main_processedCount (main_run request_one main_two_together (main_init request_one)) = 2 \<and>
   main_ret (main_run request_one main_two_together (main_init request_one)) = Some (2, None)"
  by (simp add: main_validateRequest_def main_two_together_def main_eval
      main_receiveReturns_def main_mainStep_def main_returnError_def)

section \<open>Messages that arrive after the target is reached\<close>

lemma cancelled_step: "cancelled s \<Longrightarrow> cancelled (step e s)"
  by (cases e)
     (simp_all add: callback_defs got_def getReturns_def goto_def deliver_def receiveReturns_def
      selectDone_def selectTimeout_def mainStep_def split: mpc.splits pc.splits)

lemma rejecting_callback:
  assumes "rejecting m s"
  shows "on_reject_path (pc (handlers (callback m s) ! m)) \<and>
         (pc (handlers (callback m s) ! m) = Rejected \<longrightarrow> cancelled (callback m s))"
  using assms
  by (cases "pc (handlers s ! m)") (simp_all add: rejecting_def callback_defs)

lemma rejecting_step:
  assumes "rejecting m s"
  shows "rejecting m (step e s)"
proof -
  from assms have m: "m < length (handlers s)" by (simp add: rejecting_def)
  have len: "m < length (handlers (step e s))"
    using m length_handlers_step [of s e] by simp
  have acc: "maxMessages (step e s) \<le> acceptedCount (step e s)"
    using assms by (simp add: rejecting_def maxMessages_step accepted_step del: step.simps)
  have path: "on_reject_path (pc (handlers (step e s) ! m)) \<and>
         (pc (handlers (step e s) ! m) = Rejected \<longrightarrow> cancelled (step e s))"
  proof (cases "e = Run m")
    case True
    with rejecting_callback [OF assms] show ?thesis by simp
  next
    case False
    show ?thesis
    proof (cases "\<exists>ok. e = Got m ok")
      case True
      then obtain ok where "e = Got m ok" by blast
      moreover have "pc (handlers s ! m) \<noteq> AtGet"
        using assms by (auto simp: rejecting_def)
      ultimately have "step e s = s" by (simp add: got_def getReturns_def)
      with assms show ?thesis by (simp add: rejecting_def)
    next
      case no: False
      then have "handlers (step e s) ! m = handlers s ! m"
        using handler_other_step [OF m False] by blast
      with assms cancelled_step [of s e] show ?thesis
        by (auto simp: rejecting_def simp del: step.simps)
    qed
  qed
  from len acc path show ?thesis by (simp add: rejecting_def del: step.simps)
qed

lemma rejecting_run: "rejecting m s \<Longrightarrow> rejecting m (run es s)"
  by (induction es arbitrary: s) (simp_all add: rejecting_step del: step.simps)

lemma rejecting_deliver:
  "maxMessages s \<le> acceptedCount s \<Longrightarrow> receive s = Receiving \<Longrightarrow>
   rejecting (length (handlers s)) (step Deliver s)"
  by (simp add: rejecting_def deliver_def)

lemma handler_ok_reachable:
  "inv s \<Longrightarrow> m < length (handlers s) \<Longrightarrow> handler_ok (handlers s ! m)"
  by (simp add: inv_def inv_acks_def list_all_nth del: handler_ok.simps)

lemma reject_solo:
  assumes "m < length (handlers s)" "pc (handlers s ! m) = AtLock" "\<not> mutex s"
    and "maxMessages s \<le> acceptedCount s"
  shows "pc (handlers (run (replicate 5 (Run m)) s) ! m) = Rejected"
    and "nacks (handlers (run (replicate 5 (Run m)) s) ! m) = Suc (nacks (handlers s ! m))"
    and "acks (handlers (run (replicate 5 (Run m)) s) ! m) = acks (handlers s ! m)"
    and "forwards (handlers (run (replicate 5 (Run m)) s) ! m) = forwards (handlers s ! m)"
    and "cancelled (run (replicate 5 (Run m)) s)"
    and "acceptedCount (run (replicate 5 (Run m)) s) = acceptedCount s"
    and "processedCount (run (replicate 5 (Run m)) s) = processedCount s"
  using assms by (simp_all add: numeral_eq_Suc callback_defs)

lemma late_message:
  assumes "inv s" and "0 \<le> maxMessages s"
    and "maxMessages s \<le> acceptedCount s" and "receive s = Receiving"
    and "s' = run sched' (step Deliver s)" and "m = length (handlers s)"
  shows "m < length (handlers s') \<and>
     on_reject_path (pc (handlers s' ! m)) \<and>
     acks (handlers s' ! m) = 0 \<and> forwards (handlers s' ! m) = 0 \<and>
     nacks (handlers s' ! m) = (if pc (handlers s' ! m) \<in> {RejCancel, Rejected} then 1 else 0) \<and>
     (pc (handlers s' ! m) = Rejected \<longrightarrow> cancelled s') \<and>
     acceptedCount (step (Run m) s') = acceptedCount s' \<and>
     processedCount (step (Run m) s') = processedCount s' \<and>
     acceptedCount s' = acceptedCount s \<and>
     (pc (handlers s' ! m) = AtLock \<and> \<not> mutex s' \<longrightarrow>
        pc (handlers (run (replicate 5 (Run m)) s') ! m) = Rejected \<and>
        nacks (handlers (run (replicate 5 (Run m)) s') ! m) = 1 \<and>
        acks (handlers (run (replicate 5 (Run m)) s') ! m) = 0 \<and>
        forwards (handlers (run (replicate 5 (Run m)) s') ! m) = 0 \<and>
        cancelled (run (replicate 5 (Run m)) s') \<and>
        acceptedCount (run (replicate 5 (Run m)) s') = acceptedCount s' \<and>
        processedCount (run (replicate 5 (Run m)) s') = processedCount s')"
proof -
  have "inv (step Deliver s)" using assms(1) by (rule inv_step)
  then have i': "inv s'" unfolding assms(5) by (rule inv_run)
  have "rejecting m (step Deliver s)"
    unfolding assms(6) using assms(3,4) by (intro rejecting_deliver) simp_all
  then have r: "rejecting m s'" unfolding assms(5) by (rule rejecting_run)
  then have len: "m < length (handlers s')" and path: "on_reject_path (pc (handlers s' ! m))"
    and full: "maxMessages s' \<le> acceptedCount s'"
    and canc: "pc (handlers s' ! m) = Rejected \<longrightarrow> cancelled s'"
    by (simp_all add: rejecting_def)
  have ok: "handler_ok (handlers s' ! m)"
    using i' len by (rule handler_ok_reachable)
  have a0: "acks (handlers s' ! m) = 0" "forwards (handlers s' ! m) = 0"
    "nacks (handlers s' ! m) = (if pc (handlers s' ! m) \<in> {RejCancel, Rejected} then 1 else 0)"
    using ok path by (cases "pc (handlers s' ! m)"; simp)+
  have c1: "acceptedCount (step (Run m) s') = acceptedCount s'"
    using path by (cases "pc (handlers s' ! m)") (simp_all add: accepted_callback)
  have c2: "processedCount (step (Run m) s') = processedCount s'"
    using path by (cases "pc (handlers s' ! m)") (simp_all add: processed_callback)
  have mx': "maxMessages s' = maxMessages s"
    unfolding assms(5) by (simp add: maxMessages_run maxMessages_step del: step.simps)
  have le: "acceptedCount s \<le> acceptedCount s'"
  proof -
    have "acceptedCount (step Deliver s) = acceptedCount s"
      by (simp add: accepted_step del: step.simps)
    with accepted_mono_run [of "step Deliver s" sched'] show ?thesis
      unfolding assms(5) by simp
  qed
  have "acceptedCount s' \<le> maxMessages s'"
    using i' accepted_le_max [of s'] mx' assms(2) by (simp add: inv_def)
  with le mx' assms(3) have same: "acceptedCount s' = acceptedCount s" by simp
  have solo: "pc (handlers (run (replicate 5 (Run m)) s') ! m) = Rejected \<and>
        nacks (handlers (run (replicate 5 (Run m)) s') ! m) = 1 \<and>
        acks (handlers (run (replicate 5 (Run m)) s') ! m) = 0 \<and>
        forwards (handlers (run (replicate 5 (Run m)) s') ! m) = 0 \<and>
        cancelled (run (replicate 5 (Run m)) s') \<and>
        acceptedCount (run (replicate 5 (Run m)) s') = acceptedCount s' \<and>
        processedCount (run (replicate 5 (Run m)) s') = processedCount s'"
    if "pc (handlers s' ! m) = AtLock" "\<not> mutex s'"
    using reject_solo [OF len that full] a0 that by simp
  from len path a0 canc c1 c2 same solo show ?thesis by blast
qed

text \<open>
  Package \<open>shovel\<close> does what claim C3 says.  In a bounded job, let a message
  be delivered when \<open>acceptedCount\<close> has
  reached the target.  Whatever the other goroutines do afterwards, its callback stays
  on the path of lines 168 to 174: the message is never forwarded and never
  acknowledged, it is negatively acknowledged exactly once (before the callback calls
  \<open>cancel()\<close> and returns), no step of the callback changes \<open>acceptedCount\<close> or
  \<open>processedCount\<close>, and \<open>acceptedCount\<close> keeps the value it had.  When the mutex
  is free the five statements of the callback end with the message negatively
  acknowledged and the job cancelled.
\<close>

theorem late_message_rejected:
  assumes "shovel_validateRequest req = None" and "\<not> AllMessages req"
    and "s = run sched (shovel_init req)"
    and "NumMessages req \<le> acceptedCount s" and "receive s = Receiving"
    and "s' = run sched' (step Deliver s)" and "m = length (handlers s)"
  shows "m < length (handlers s') \<and>
     on_reject_path (pc (handlers s' ! m)) \<and>
     acks (handlers s' ! m) = 0 \<and> forwards (handlers s' ! m) = 0 \<and>
     nacks (handlers s' ! m) = (if pc (handlers s' ! m) \<in> {RejCancel, Rejected} then 1 else 0) \<and>
     (pc (handlers s' ! m) = Rejected \<longrightarrow> cancelled s') \<and>
     acceptedCount (step (Run m) s') = acceptedCount s' \<and>
     processedCount (step (Run m) s') = processedCount s' \<and>
     acceptedCount s' = acceptedCount s \<and>
     (pc (handlers s' ! m) = AtLock \<and> \<not> mutex s' \<longrightarrow>
        pc (handlers (run (replicate 5 (Run m)) s') ! m) = Rejected \<and>
        nacks (handlers (run (replicate 5 (Run m)) s') ! m) = 1 \<and>
        acks (handlers (run (replicate 5 (Run m)) s') ! m) = 0 \<and>
        forwards (handlers (run (replicate 5 (Run m)) s') ! m) = 0 \<and>
        cancelled (run (replicate 5 (Run m)) s') \<and>
        acceptedCount (run (replicate 5 (Run m)) s') = acceptedCount s' \<and>
        processedCount (run (replicate 5 (Run m)) s') = processedCount s')"
proof -
  have mx: "maxMessages s = NumMessages req" "0 < NumMessages req"
    using bounded_maxMessages [OF assms(1,2), of sched] by (simp_all add: assms(3))
  have i: "inv s" unfolding assms(3) by (rule inv_reachable)
  show ?thesis
    using late_message [OF i _ _ assms(5,6,7)] mx assms(4) by simp
qed

lemma served_one:
  "acceptedCount (run (serve 0) (shovel_init request_one)) = 1"
  "receive (run (serve 0) (shovel_init request_one)) = Receiving"
  "length (handlers (run (serve 0) (shovel_init request_one))) = 1"
  "\<not> mutex (step Deliver (run (serve 0) (shovel_init request_one)))"
  "pc (handlers (step Deliver (run (serve 0) (shovel_init request_one))) ! 1) = AtLock"
  by (simp_all add: serve_def request_one_def shovel_init_def shovel_maxMessages_def
      shovel_timeout_def callback_defs deliver_def got_def getReturns_def)

theorem late_message_rejected_witness:
  "shovel_validateRequest request_one = None \<and> \<not> AllMessages request_one \<and>
   NumMessages request_one \<le> acceptedCount (run (serve 0) (shovel_init request_one)) \<and>
   receive (run (serve 0) (shovel_init request_one)) = Receiving \<and>
   pc (handlers (run (replicate 5 (Run 1))
         (step Deliver (run (serve 0) (shovel_init request_one)))) ! 1) = Rejected \<and>
   nacks (handlers (run (replicate 5 (Run 1))
         (step Deliver (run (serve 0) (shovel_init request_one)))) ! 1) = 1 \<and>
   acks (handlers (run (replicate 5 (Run 1))
         (step Deliver (run (serve 0) (shovel_init request_one)))) ! 1) = 0 \<and>
   acceptedCount (run (replicate 5 (Run 1))
         (step Deliver (run (serve 0) (shovel_init request_one)))) = 1"
proof -
  have v: "shovel_validateRequest request_one = None" "\<not> AllMessages request_one"
    by (simp_all add: request_one_def shovel_validateRequest_def)
  have n: "NumMessages request_one \<le> acceptedCount (run (serve 0) (shovel_init request_one))"
    by (simp add: served_one) (simp add: request_one_def)
  have s': "step Deliver (run (serve 0) (shovel_init request_one)) =
      run [] (step Deliver (run (serve 0) (shovel_init request_one)))" by simp
  have m: "(1::nat) = length (handlers (run (serve 0) (shovel_init request_one)))"
    by (simp add: served_one)
  note t = late_message_rejected [OF v refl n served_one(2) s' m]
  from t served_one v n show ?thesis by simp
qed

text \<open>
  Claim C3 has a message that arrives after the target is reached negatively
  acknowledged and not acknowledged.  In \<open>processMessages\<close> of package \<open>main\<close>
  the callback begins with \<open>defer msg.Ack()\<close> (line 158) and \<open>msg.Nack()\<close> occurs
  nowhere: with target 1, after one message was relayed (\<open>processedCount\<close> is 1 and
  \<open>done\<close> holds a value), the callback of the next message returns at line 163
  and the message is acknowledged, although it was never forwarded.
\<close>

theorem main_late_message_acknowledged:
  "main_validateRequest request_one = None \<and> \<not> AllMessages request_one \<and>
   NumMessages request_one = 1 \<and>
   main_processedCount (main_run request_one main_one_relayed (main_init request_one)) = 1 \<and>
   doneCh (main_run request_one main_one_relayed (main_init request_one)) \<and>
   hpc (main_handlers
     (main_run request_one main_late_message (main_init request_one)) ! 1) = HReturned \<and>
   gpc (main_handlers
     (main_run request_one main_late_message (main_init request_one)) ! 1) = GIdle \<and>
   main_acks (main_handlers
     (main_run request_one main_late_message (main_init request_one)) ! 1) = 1 \<and>
   main_nacks (main_handlers
     (main_run request_one main_late_message (main_init request_one)) ! 1) = 0 \<and>
   main_forwards (main_handlers
     (main_run request_one main_late_message (main_init request_one)) ! 1) = 0 \<and>
   main_processedCount (main_run request_one main_late_message (main_init request_one)) = 1"
  by (simp add: main_validateRequest_def main_late_message_def main_one_relayed_def main_eval)

section \<open>The counters\<close>

lemma inFlight_by_pc:
  "list_all handler_ok hs \<Longrightarrow>
   countP (\<lambda>h. admitted (pc h) \<and> acks h = 0 \<and> nacks h = 0) hs =
     countP (\<lambda>h. pc h = AccUnlock) hs + countP (\<lambda>h. pc h = AtPublish) hs +
     countP (\<lambda>h. pc h = AtGet) hs + countP (\<lambda>h. pc h = FailNack) hs +
     countP (\<lambda>h. pc h = OkAck) hs"
proof (induction hs)
  case Nil
  show ?case by (simp add: countP_def)
next
  case (Cons h hs)
  then show ?case by (cases "pc h") (simp_all add: countP_Cons)
qed

lemma failed_by_pc:
  "list_all handler_ok hs \<Longrightarrow>
   countP (\<lambda>h. admitted (pc h) \<and> 0 < nacks h) hs = countP (\<lambda>h. pc h = Failed) hs"
proof (induction hs)
  case Nil
  show ?case by (simp add: countP_def)
next
  case (Cons h hs)
  then show ?case by (cases "pc h") (simp_all add: countP_Cons)
qed

lemma ackedNotCounted_by_pc:
  "countP (\<lambda>h. pc h = OkLock \<or> pc h = OkInc) hs =
     countP (\<lambda>h. pc h = OkLock) hs + countP (\<lambda>h. pc h = OkInc) hs"
proof (induction hs)
  case Nil
  show ?case by (simp add: countP_def)
next
  case (Cons h hs)
  then show ?case by (cases "pc h") (simp_all add: countP_Cons)
qed

lemma failedCount_num_at: "inv_acks s \<Longrightarrow> failedCount s = num_at Failed s"
  by (simp add: inv_acks_def failedCount_def num_at_def failed_by_pc)

lemma accepted_partition:
  "inv_counts s \<Longrightarrow> inv_acks s \<Longrightarrow>
   acceptedCount s = processedCount s + failedCount s + inFlightCount s + ackedNotCounted s"
  by (simp add: inv_counts_def inv_acks_def inFlightCount_def failedCount_def
      ackedNotCounted_def inFlight_by_pc failed_by_pc ackedNotCounted_by_pc num_at_def)

lemma failed_callback: "num_at Failed s \<le> num_at Failed (callback m s)"
proof (cases "m < length (handlers s)")
  case False
  then show ?thesis by (simp add: callback_def)
next
  case True
  then show ?thesis
    by (cases "pc (handlers s ! m)")
       (simp_all add: num_at_def callback_defs countP_update)
qed

lemma failed_step: "num_at Failed s \<le> num_at Failed (step e s)"
proof (cases e)
  case (Run m)
  then show ?thesis by (simp add: failed_callback)
next
  case (Got m ok)
  then show ?thesis
    by (simp add: num_at_def got_def getReturns_def goto_def countP_update)
next
  case Deliver
  then show ?thesis by (simp add: num_at_def deliver_def countP_append)
qed (simp_all add: num_at_def receiveReturns_def selectDone_def selectTimeout_def
      mainStep_def unlock_def split: mpc.splits)

lemma failed_mono_run: "num_at Failed s \<le> num_at Failed (run es s)"
proof (induction es arbitrary: s)
  case Nil
  show ?case by simp
next
  case (Cons e es)
  have "num_at Failed s \<le> num_at Failed (step e s)" by (rule failed_step)
  also have "\<dots> \<le> num_at Failed (run es (step e s))" by (rule Cons.IH)
  finally show ?case by simp
qed

lemma failedCount_mono_run:
  assumes "inv s"
  shows "failedCount s \<le> failedCount (run es s)"
proof -
  have "inv (run es s)" using assms by (rule inv_run)
  then have "failedCount (run es s) = num_at Failed (run es s)"
    by (simp add: inv_def failedCount_num_at)
  moreover have "failedCount s = num_at Failed s"
    using assms by (simp add: inv_def failedCount_num_at)
  ultimately show ?thesis using failed_mono_run [of s es] by simp
qed

lemma validated_maxMessages:
  "shovel_validateRequest req = None \<Longrightarrow> 0 < shovel_maxMessages req"
  by (auto simp: shovel_maxMessages_def shovel_validateRequest_def split: if_splits)

lemma maxMessages_reachable:
  "maxMessages (run sched (shovel_init req)) = shovel_maxMessages req"
  by (simp add: maxMessages_run shovel_init_def)

lemma acked_not_counted_state:
  "acceptedCount (run acked_not_counted (shovel_init request_one)) = 1"
  "processedCount (run acked_not_counted (shovel_init request_one)) = 0"
  "failedCount (run acked_not_counted (shovel_init request_one)) = 0"
  "inFlightCount (run acked_not_counted (shovel_init request_one)) = 0"
  "ackedNotCounted (run acked_not_counted (shovel_init request_one)) = 1"
  "acks (handlers (run acked_not_counted (shovel_init request_one)) ! 0) = 1"
  "pc (handlers (run acked_not_counted (shovel_init request_one)) ! 0) = OkLock"
  by (simp_all add: acked_not_counted_def admit_one_def request_one_def shovel_init_def
      shovel_maxMessages_def shovel_timeout_def callback_defs deliver_def got_def
      inFlightCount_def failedCount_def ackedNotCounted_def countP_def)

lemma fail_one_state:
  "acceptedCount (run fail_one (shovel_init request_one)) = 1"
  "processedCount (run fail_one (shovel_init request_one)) = 0"
  "inFlightCount (run fail_one (shovel_init request_one)) = 0"
  "failedCount (run fail_one (shovel_init request_one)) = 1"
  "ackedNotCounted (run fail_one (shovel_init request_one)) = 0"
  by (simp_all add: fail_one_def fail_before_nack_def admit_one_def request_one_def shovel_init_def
      shovel_maxMessages_def shovel_timeout_def callback_defs deliver_def got_def
      inFlightCount_def failedCount_def ackedNotCounted_def countP_def)

text \<open>
  Claim C4, as stated, has \<open>acceptedCount = publishedCount + failedCount +
  inFlightCount\<close> at every instant, a message being in flight until its ack or nack
  is issued.  The goroutine of line 190 calls \<open>msg.Ack()\<close> (line 198) before it
  takes the mutex and increments \<open>processedCount\<close> (lines 199 and 200).  Between
  the two, the one admitted message is acknowledged, so no longer in flight, and not
  yet counted as published: \<open>acceptedCount\<close> is 1 and the three terms of the sum
  are 0.
\<close>

theorem acknowledged_before_counted:
  "acks (handlers (run acked_not_counted (shovel_init request_one)) ! 0) = 1 \<and>
   acceptedCount (run acked_not_counted (shovel_init request_one)) = 1 \<and>
   processedCount (run acked_not_counted (shovel_init request_one)) = 0 \<and>
   failedCount (run acked_not_counted (shovel_init request_one)) = 0 \<and>
   inFlightCount (run acked_not_counted (shovel_init request_one)) = 0 \<and>
   acceptedCount (run acked_not_counted (shovel_init request_one)) \<noteq>
     processedCount (run acked_not_counted (shovel_init request_one)) +
     failedCount (run acked_not_counted (shovel_init request_one)) +
     inFlightCount (run acked_not_counted (shovel_init request_one))"
  by (simp add: acked_not_counted_state)

text \<open>
  Claim C4, amended.  In every reachable state of a job of package \<open>shovel\<close>,
  \<open>acceptedCount = processedCount + failedCount + inFlightCount + ackedNotCounted\<close>:
  every admitted message is counted as published, or settled as failed, or still in
  flight, or acknowledged with its \<open>processedCount++\<close> still to come.  So the sum
  of the claim never exceeds \<open>acceptedCount\<close>, and equals it whenever no goroutine
  stands between lines 198 and 200.  Here \<open>failedCount\<close> and \<open>inFlightCount\<close> are
  counted over the messages; the program stores \<open>acceptedCount\<close> and
  \<open>processedCount\<close> only.  For a validated request \<open>acceptedCount\<close> never exceeds
  \<open>maxMessages\<close>, which is the target of a bounded job; and \<open>acceptedCount\<close>,
  \<open>processedCount\<close> and \<open>failedCount\<close> never decrease.
\<close>

theorem counters_invariant:
  assumes "s = run sched (shovel_init req)"
  shows "acceptedCount s =
       processedCount s + failedCount s + inFlightCount s + ackedNotCounted s \<and>
     processedCount s + failedCount s + inFlightCount s \<le> acceptedCount s \<and>
     (ackedNotCounted s = 0 \<longrightarrow>
        acceptedCount s = processedCount s + failedCount s + inFlightCount s) \<and>
     0 \<le> processedCount s \<and> 0 \<le> failedCount s \<and> 0 \<le> inFlightCount s \<and>
     0 \<le> ackedNotCounted s \<and>
     (shovel_validateRequest req = None \<longrightarrow> acceptedCount s \<le> shovel_maxMessages req) \<and>
     (shovel_validateRequest req = None \<and> \<not> AllMessages req \<longrightarrow>
        acceptedCount s \<le> NumMessages req) \<and>
     acceptedCount s \<le> acceptedCount (run es s) \<and>
     processedCount s \<le> processedCount (run es s) \<and>
     failedCount s \<le> failedCount (run es s)"
proof -
  have i: "inv s" unfolding assms by (rule inv_reachable)
  then have eq: "acceptedCount s =
      processedCount s + failedCount s + inFlightCount s + ackedNotCounted s"
    by (simp add: inv_def accepted_partition)
  have nn: "0 \<le> failedCount s" "0 \<le> inFlightCount s" "0 \<le> ackedNotCounted s"
    by (simp_all add: failedCount_def inFlightCount_def ackedNotCounted_def countP_nonneg)
  have p: "0 \<le> processedCount s"
    using i processed_le_accepted(2) [of s] by (simp add: inv_def)
  have le: "acceptedCount s \<le> shovel_maxMessages req"
    if "shovel_validateRequest req = None"
    using accepted_le_max [of s] i validated_maxMessages [OF that]
      maxMessages_reachable [of sched req]
    by (simp add: inv_def assms)
  have le': "acceptedCount s \<le> NumMessages req"
    if "shovel_validateRequest req = None" "\<not> AllMessages req"
    using le [OF that(1)] that(2) by (simp add: shovel_maxMessages_def)
  have mono: "acceptedCount s \<le> acceptedCount (run es s)"
    "processedCount s \<le> processedCount (run es s)"
    "failedCount s \<le> failedCount (run es s)"
    using accepted_mono_run [of s es] processed_mono_run [of s es]
      failedCount_mono_run [OF i, of es] by simp_all
  from eq nn have sum: "processedCount s + failedCount s + inFlightCount s \<le> acceptedCount s"
    by simp
  from eq have zero: "ackedNotCounted s = 0 \<longrightarrow>
      acceptedCount s = processedCount s + failedCount s + inFlightCount s"
    by simp
  from eq sum zero p nn le le' mono show ?thesis by blast
qed

theorem counters_invariant_witness:
  "shovel_validateRequest request_one = None \<and> \<not> AllMessages request_one \<and>
   acceptedCount (run fail_one (shovel_init request_one)) =
     processedCount (run fail_one (shovel_init request_one)) +
     failedCount (run fail_one (shovel_init request_one)) +
     inFlightCount (run fail_one (shovel_init request_one)) \<and>
   acceptedCount (run fail_one (shovel_init request_one)) \<le> NumMessages request_one \<and>
   failedCount (run fail_one (shovel_init request_one)) = 1 \<and>
   ackedNotCounted (run fail_one (shovel_init request_one)) = 0"
proof -
  have v: "shovel_validateRequest request_one = None" "\<not> AllMessages request_one"
    by (simp_all add: request_one_def shovel_validateRequest_def)
  from counters_invariant [OF refl, of fail_one request_one "[]"] v fail_one_state(4,5)
  show ?thesis by simp
qed

section \<open>The outcome of a relay\<close>

lemma fail_solo:
  assumes "m < length (handlers s)" "pc (handlers s ! m) = AtGet"
  shows "pc (handlers (run [Got m False, Run m] s) ! m) = Failed"
    and "nacks (handlers (run [Got m False, Run m] s) ! m) = Suc (nacks (handlers s ! m))"
    and "acks (handlers (run [Got m False, Run m] s) ! m) = acks (handlers s ! m)"
    and "acceptedCount (run [Got m False, Run m] s) = acceptedCount s"
    and "processedCount (run [Got m False, Run m] s) = processedCount s"
    and "num_at Failed (run [Got m False, Run m] s) = num_at Failed s + 1"
  using assms by (simp_all add: callback_defs got_def num_at_def countP_update)

lemma success_solo:
  assumes "m < length (handlers s)" "pc (handlers s ! m) = AtGet" "\<not> mutex s"
  shows "pc (handlers (run [Got m True, Run m, Run m, Run m, Run m] s) ! m) = Published"
    and "acks (handlers (run [Got m True, Run m, Run m, Run m, Run m] s) ! m) =
           Suc (acks (handlers s ! m))"
    and "nacks (handlers (run [Got m True, Run m, Run m, Run m, Run m] s) ! m) =
           nacks (handlers s ! m)"
    and "acceptedCount (run [Got m True, Run m, Run m, Run m, Run m] s) = acceptedCount s"
    and "processedCount (run [Got m True, Run m, Run m, Run m, Run m] s) = processedCount s + 1"
  using assms by (simp_all add: callback_defs got_def getReturns_def)

text \<open>
  An admitted message stays admitted, whatever step is taken.
\<close>

lemma admitted_callback:
  assumes "m < length (handlers s)" "admitted (pc (handlers s ! m))"
  shows "admitted (pc (handlers (callback k s) ! m))"
proof (cases "k = m")
  case True
  with assms show ?thesis
    by (cases "pc (handlers s ! m)") (simp_all add: callback_defs)
next
  case False
  with assms show ?thesis by (simp add: handler_other_callback)
qed

lemma admitted_step:
  assumes "m < length (handlers s)" "admitted (pc (handlers s ! m))"
  shows "m < length (handlers (step e s)) \<and> admitted (pc (handlers (step e s) ! m))"
proof -
  have len: "m < length (handlers (step e s))"
    using assms(1) length_handlers_step [of s e] by simp
  have "admitted (pc (handlers (step e s) ! m))"
  proof (cases "\<exists>ok. e = Got m ok")
    case True
    then obtain ok where "e = Got m ok" by blast
    with assms show ?thesis by (simp add: got_def getReturns_def goto_def)
  next
    case False
    show ?thesis
    proof (cases e)
      case (Run k)
      with assms show ?thesis by (simp add: admitted_callback)
    next
      case (Got k ok)
      with False have "e \<noteq> Run m" "\<forall>ok. e \<noteq> Got m ok" by auto
      with assms show ?thesis
        using handler_other_step [of m s e] by (simp del: step.simps)
    qed (use assms handler_other_step [of m s e] in \<open>simp_all del: step.simps\<close>)
  qed
  with len show ?thesis by simp
qed

lemma admitted_run:
  "m < length (handlers s) \<Longrightarrow> admitted (pc (handlers s ! m)) \<Longrightarrow>
   m < length (handlers (run es s)) \<and> admitted (pc (handlers (run es s) ! m))"
proof (induction es arbitrary: s)
  case Nil
  then show ?case by simp
next
  case (Cons e es)
  from admitted_step [OF Cons.prems, of e] Cons.IH [of "step e s"]
  show ?case by simp
qed

text \<open>
  Whoever holds the mutex releases it within three of its own statements.
\<close>

lemma countP_ex: "0 < countP P xs \<Longrightarrow> \<exists>k<length xs. P (xs ! k)"
proof -
  assume "0 < countP P xs"
  then have "filter P xs \<noteq> []" by (auto simp: countP_def)
  then obtain x where "x \<in> set xs" "P x" by (auto simp: filter_empty_conv)
  then show ?thesis by (auto simp: in_set_conv_nth)
qed

lemma holder_exists:
  assumes "inv_mutex s" "mutex s"
  shows "(\<exists>k<length (handlers s). in_critical (pc (handlers s ! k))) \<or> mholds (mainpc s)"
proof (cases "mholds (mainpc s)")
  case True
  then show ?thesis by simp
next
  case False
  with assms have "0 < countP (\<lambda>h. in_critical (pc h)) (handlers s)"
    by (simp add: inv_mutex_def countP_critical num_at_def)
  then show ?thesis using countP_ex by blast
qed

lemma release_handler:
  assumes "mutex s" "k < length (handlers s)" "in_critical (pc (handlers s ! k))"
  shows "\<not> mutex (run [Run k, Run k, Run k] s)"
  using assms by (cases "pc (handlers s ! k)") (simp_all add: callback_defs)

lemma release_main:
  assumes "mutex s" "mholds (mainpc s)"
  shows "\<not> mutex (run [MainStep, MainStep, MainStep] s)"
  using assms by (cases "mainpc s") (simp_all add: mainStep_def unlock_def)

lemma release:
  assumes "inv_mutex s"
  shows "\<exists>es. list_all internal es \<and> \<not> mutex (run es s)"
proof (cases "mutex s")
  case False
  then have "list_all internal [] \<and> \<not> mutex (run [] s)" by simp
  then show ?thesis by blast
next
  case True
  from holder_exists [OF assms True] show ?thesis
  proof
    assume "\<exists>k<length (handlers s). in_critical (pc (handlers s ! k))"
    then obtain k where "k < length (handlers s)" "in_critical (pc (handlers s ! k))"
      by blast
    with True have "\<not> mutex (run [Run k, Run k, Run k] s)" by (rule release_handler)
    moreover have "list_all internal [Run k, Run k, Run k]" by simp
    ultimately show ?thesis by blast
  next
    assume "mholds (mainpc s)"
    with True have "\<not> mutex (run [MainStep, MainStep, MainStep] s)" by (rule release_main)
    moreover have "list_all internal [MainStep, MainStep, MainStep]" by simp
    ultimately show ?thesis by blast
  qed
qed

text \<open>
  With the mutex free, the main goroutine reaches its \<open>return\<close> within ten minutes
  and two seconds, and the context is cancelled then at the latest.
\<close>

lemma wind_up_run:
  assumes "inv_main s" "\<not> mutex s" "timeout s \<le> 10 * Minute"
  shows "cancelled (run wind_up s)" and "\<not> mutex (run wind_up s)"
    and "handlers (run wind_up s) = handlers s" and "ret (run wind_up s) \<noteq> None"
  using assms
  by (cases "mainpc s";
      simp add: wind_up_def inv_main_def selectTimeout_def mainStep_def unlock_def
        shovel_grace_def Minute_def Second_def)+

text \<open>
  Once the context is cancelled, the statements of the goroutine of an admitted
  message end in \<open>msg.Ack()\<close> followed by the count, or in \<open>msg.Nack()\<close>: the wait
  for the publish result returns.
\<close>

lemma complete_solo:
  assumes "m < length (handlers s)" "admitted (pc (handlers s ! m))" "cancelled s"
    and "\<not> mutex s \<or> in_critical (pc (handlers s ! m))"
  shows "pc (handlers (run (replicate 4 (Run m)) s) ! m) \<in> {Published, Failed}"
  using assms
  by (cases "pc (handlers s ! m)") (simp_all add: numeral_eq_Suc callback_defs)

lemma settled_once:
  assumes "inv s" "m < length (handlers s)" "pc (handlers s ! m) \<in> {Published, Failed}"
  shows "acks (handlers s ! m) + nacks (handlers s ! m) = 1"
  using handler_ok_reachable [OF assms(1,2)] assms(3) by auto

text \<open>
  A statement of a callback or goroutine that is not waiting moves it on; so in a
  state where the context is cancelled, the main goroutine does not hold the mutex and
  no callback or goroutine can take a step, every admitted message is settled.
\<close>

lemma callback_moves:
  assumes "m < length (handlers s)"
    and "pc (handlers s ! m) \<notin> {Rejected, Failed, Published}"
    and "pc (handlers s ! m) \<in> {AtLock, OkLock} \<longrightarrow> \<not> mutex s"
    and "pc (handlers s ! m) = AtGet \<longrightarrow> cancelled s"
  shows "pc (handlers (callback m s) ! m) \<noteq> pc (handlers s ! m)"
  using assms by (cases "pc (handlers s ! m)") (simp_all add: callback_defs)

lemma quiescent_settled:
  assumes "inv s" and "m < length (handlers s)" and "admitted (pc (handlers s ! m))"
    and "cancelled s" and "\<not> mholds (mainpc s)"
    and "\<forall>k<length (handlers s). step (Run k) s = s"
  shows "pc (handlers s ! m) \<in> {Published, Failed}"
proof (rule ccontr)
  assume n: "pc (handlers s ! m) \<notin> {Published, Failed}"
  have free: "\<not> mutex s"
  proof
    assume "mutex s"
    with holder_exists [of s] assms(1,5) obtain k
      where k: "k < length (handlers s)" "in_critical (pc (handlers s ! k))"
      by (auto simp: inv_def)
    have "pc (handlers (callback k s) ! k) \<noteq> pc (handlers s ! k)"
      using k by (intro callback_moves) (cases "pc (handlers s ! k)"; simp)+
    moreover have "callback k s = s" using assms(6) k(1) by simp
    ultimately show False by simp
  qed
  have "pc (handlers (callback m s) ! m) \<noteq> pc (handlers s ! m)"
    using assms(2,3,4) n free
    by (intro callback_moves) (cases "pc (handlers s ! m)"; simp)+
  moreover have "callback m s = s" using assms(6,2) by simp
  ultimately show False by simp
qed

lemma resolves:
  assumes "s = run sched (shovel_init req)" and "m < length (handlers s)"
    and "admitted (pc (handlers s ! m))"
  shows "\<exists>es. list_all internal es \<and>
     pc (handlers (run es s) ! m) \<in> {Published, Failed} \<and>
     acks (handlers (run es s) ! m) + nacks (handlers (run es s) ! m) = 1"
proof -
  have i: "inv s" unfolding assms(1) by (rule inv_reachable)
  then obtain es1 where es1: "list_all internal es1" "\<not> mutex (run es1 s)"
    using release [of s] by (auto simp: inv_def)
  define s1 where "s1 = run es1 s"
  have i1: "inv s1" unfolding s1_def using i by (rule inv_run)
  have a1: "m < length (handlers s1)" "admitted (pc (handlers s1 ! m))"
    unfolding s1_def using admitted_run [OF assms(2,3), of es1] by simp_all
  have "timeout s1 = shovel_timeout req"
    unfolding s1_def assms(1) by (simp add: timeout_run shovel_init_def)
  then have t1: "timeout s1 \<le> 10 * Minute"
    by (simp add: shovel_timeout_def Minute_def Second_def)
  have m1: "inv_main s1" "\<not> mutex s1"
    using i1 es1(2) by (simp_all add: inv_def s1_def)
  define s2 where "s2 = run wind_up s1"
  note w = wind_up_run [OF m1 t1, folded s2_def]
  have i2: "inv s2" unfolding s2_def using i1 by (rule inv_run)
  have a2: "m < length (handlers s2)" "admitted (pc (handlers s2 ! m))"
    using a1 w(3) by simp_all
  define s3 where "s3 = run (replicate 4 (Run m)) s2"
  have i3: "inv s3" unfolding s3_def using i2 by (rule inv_run)
  have p3: "pc (handlers s3 ! m) \<in> {Published, Failed}"
    unfolding s3_def using a2 w(1) w(2) by (intro complete_solo) simp_all
  have l3: "m < length (handlers s3)"
    unfolding s3_def using admitted_run [OF a2, of "replicate 4 (Run m)"] by simp
  have one: "acks (handlers s3 ! m) + nacks (handlers s3 ! m) = 1"
    using i3 l3 p3 by (rule settled_once)
  have r: "run (es1 @ wind_up @ replicate 4 (Run m)) s = s3"
    by (simp add: run_append s1_def s2_def s3_def)
  have "list_all internal (es1 @ wind_up @ replicate 4 (Run m))"
    using es1(1) by (simp add: wind_up_def list_all_iff)
  with r p3 one show ?thesis by metis
qed

lemma admit_one_state:
  "length (handlers (run admit_one (shovel_init request_one))) = 1"
  "pc (handlers (run admit_one (shovel_init request_one)) ! 0) = AtGet"
  "\<not> mutex (run admit_one (shovel_init request_one))"
  "acceptedCount (run admit_one (shovel_init request_one)) = 1"
  "processedCount (run admit_one (shovel_init request_one)) = 0"
  by (simp_all add: admit_one_def shovel_eval)

text \<open>
  Claim C2, as stated, has a failed forward increment \<open>failedCount\<close> and has no
  message acknowledged without a successful forward.  In package \<open>shovel\<close> the
  \<open>msg.Nack()\<close> after a failed forward leaves both counters of the state as they
  were: there is no \<open>failedCount\<close>.  In package \<open>main\<close> the callback defers
  \<open>msg.Ack()\<close>, so a message whose forward fails has been acknowledged, and is
  never negatively acknowledged.
\<close>

theorem failed_forward_counts_nothing:
  "nacks (handlers (run fail_one (shovel_init request_one)) ! 0) = 1 \<and>
   outcome (handlers (run fail_one (shovel_init request_one)) ! 0) = Some False \<and>
   acceptedCount (run fail_one (shovel_init request_one)) =
     acceptedCount (run fail_before_nack (shovel_init request_one)) \<and>
   processedCount (run fail_one (shovel_init request_one)) =
     processedCount (run fail_before_nack (shovel_init request_one)) \<and>
   main_outcome (main_handlers (main_run request_one main_fail_one (main_init request_one)) ! 0)
     = Some False \<and>
   main_acks (main_handlers (main_run request_one main_fail_one (main_init request_one)) ! 0)
     = 1 \<and>
   main_nacks (main_handlers (main_run request_one main_fail_one (main_init request_one)) ! 0)
     = 0"
  by (simp add: fail_one_def fail_before_nack_def admit_one_def shovel_eval
      main_fail_one_def main_eval)

text \<open>
  Claim C2, amended.  For every message of a job of package \<open>shovel\<close>, in every
  reachable state: it is acknowledged or negatively acknowledged at most once and never
  both; it is acknowledged only after its forward succeeded; an admitted message is
  negatively acknowledged only after its forward failed; a relay that has ended has
  issued exactly one of the two.  From the wait for the publish result, a failure
  leads to one \<open>msg.Nack()\<close> and changes neither \<open>acceptedCount\<close> nor
  \<open>processedCount\<close>: the program stores no \<open>failedCount\<close> (the number of failed
  relays, counted over the messages, grows by one), and the admitted slot is not given
  back; a success leads to one \<open>msg.Ack()\<close> and increments \<open>processedCount\<close>.
  \<open>acceptedCount\<close> never decreases.

  No admitted message is left with neither: once the function has returned the context
  is cancelled; once the context is cancelled the wait for the publish result returns,
  and the goroutine's own statements (four at most) end with exactly one of
  \<open>msg.Ack()\<close> and \<open>msg.Nack()\<close> issued; and from every reachable state there
  is a continuation made of steps of the job's goroutines and of the passing of time
  only (no answer of the sink, no further delivery) that ends so.  In a state in which
  the function has returned and no callback or goroutine can take a further step,
  every admitted message has exactly one of the two issued.
\<close>

theorem relay_outcome:
  assumes "s = run sched (shovel_init req)" and "m < length (handlers s)"
    and "h = handlers s ! m"
  shows "acks h + nacks h \<le> 1 \<and>
     (0 < acks h \<longrightarrow> outcome h = Some True \<and> forwards h = 1) \<and>
     (admitted (pc h) \<and> 0 < nacks h \<longrightarrow> outcome h = Some False) \<and>
     (pc h = Published \<longrightarrow> acks h = 1 \<and> nacks h = 0 \<and> outcome h = Some True) \<and>
     (pc h = Failed \<longrightarrow> nacks h = 1 \<and> acks h = 0 \<and> outcome h = Some False) \<and>
     (pc h = AtGet \<longrightarrow>
        pc (handlers (run [Got m False, Run m] s) ! m) = Failed \<and>
        nacks (handlers (run [Got m False, Run m] s) ! m) = 1 \<and>
        acks (handlers (run [Got m False, Run m] s) ! m) = 0 \<and>
        acceptedCount (run [Got m False, Run m] s) = acceptedCount s \<and>
        processedCount (run [Got m False, Run m] s) = processedCount s \<and>
        failedCount (run [Got m False, Run m] s) = failedCount s + 1) \<and>
     (pc h = AtGet \<and> \<not> mutex s \<longrightarrow>
        pc (handlers (run [Got m True, Run m, Run m, Run m, Run m] s) ! m) = Published \<and>
        acks (handlers (run [Got m True, Run m, Run m, Run m, Run m] s) ! m) = 1 \<and>
        nacks (handlers (run [Got m True, Run m, Run m, Run m, Run m] s) ! m) = 0 \<and>
        acceptedCount (run [Got m True, Run m, Run m, Run m, Run m] s) = acceptedCount s \<and>
        processedCount (run [Got m True, Run m, Run m, Run m, Run m] s) =
          processedCount s + 1) \<and>
     acceptedCount s \<le> acceptedCount (run es s) \<and>
     (ret s \<noteq> None \<longrightarrow> cancelled s) \<and>
     (admitted (pc h) \<and> cancelled s \<and> (\<not> mutex s \<or> in_critical (pc h)) \<longrightarrow>
        pc (handlers (run (replicate 4 (Run m)) s) ! m) \<in> {Published, Failed} \<and>
        acks (handlers (run (replicate 4 (Run m)) s) ! m) +
          nacks (handlers (run (replicate 4 (Run m)) s) ! m) = 1) \<and>
     (admitted (pc h) \<longrightarrow>
        (\<exists>es'. list_all internal es' \<and>
           pc (handlers (run es' s) ! m) \<in> {Published, Failed} \<and>
           acks (handlers (run es' s) ! m) + nacks (handlers (run es' s) ! m) = 1)) \<and>
     (admitted (pc h) \<and> ret s \<noteq> None \<and>
      (\<forall>k<length (handlers s). step (Run k) s = s) \<longrightarrow>
        pc h \<in> {Published, Failed} \<and> acks h + nacks h = 1)"
proof -
  have i: "inv s" unfolding assms(1) by (rule inv_reachable)
  have ok: "handler_ok h"
    unfolding assms(3) using i assms(2) by (rule handler_ok_reachable)
  have p1: "acks h + nacks h \<le> 1"
    using ok by (cases "pc h") simp_all
  have p2: "0 < acks h \<longrightarrow> outcome h = Some True \<and> forwards h = 1"
    using ok by (cases "pc h") simp_all
  have p3: "admitted (pc h) \<and> 0 < nacks h \<longrightarrow> outcome h = Some False"
    using ok by (cases "pc h") simp_all
  have p4: "pc h = Published \<longrightarrow> acks h = 1 \<and> nacks h = 0 \<and> outcome h = Some True"
    using ok by simp
  have p5: "pc h = Failed \<longrightarrow> nacks h = 1 \<and> acks h = 0 \<and> outcome h = Some False"
    using ok by simp
  have z: "pc h = AtGet \<Longrightarrow> acks h = 0 \<and> nacks h = 0"
    using ok by simp
  have p6: "pc (handlers (run [Got m False, Run m] s) ! m) = Failed \<and>
        nacks (handlers (run [Got m False, Run m] s) ! m) = 1 \<and>
        acks (handlers (run [Got m False, Run m] s) ! m) = 0 \<and>
        acceptedCount (run [Got m False, Run m] s) = acceptedCount s \<and>
        processedCount (run [Got m False, Run m] s) = processedCount s \<and>
        failedCount (run [Got m False, Run m] s) = failedCount s + 1"
    if "pc h = AtGet"
  proof -
    note f = fail_solo [OF assms(2), unfolded assms(3) [symmetric], OF that]
    have "inv (run [Got m False, Run m] s)" using i by (rule inv_run)
    then have "failedCount (run [Got m False, Run m] s) =
        num_at Failed (run [Got m False, Run m] s)"
      by (simp add: inv_def failedCount_num_at del: run.simps)
    moreover have "failedCount s = num_at Failed s"
      using i by (simp add: inv_def failedCount_num_at)
    ultimately have "failedCount (run [Got m False, Run m] s) = failedCount s + 1"
      using f(6) by simp
    with f(1-5) z [OF that] show ?thesis
      unfolding assms(3) by simp
  qed
  have p7: "pc (handlers (run [Got m True, Run m, Run m, Run m, Run m] s) ! m) = Published \<and>
        acks (handlers (run [Got m True, Run m, Run m, Run m, Run m] s) ! m) = 1 \<and>
        nacks (handlers (run [Got m True, Run m, Run m, Run m, Run m] s) ! m) = 0 \<and>
        acceptedCount (run [Got m True, Run m, Run m, Run m, Run m] s) = acceptedCount s \<and>
        processedCount (run [Got m True, Run m, Run m, Run m, Run m] s) =
          processedCount s + 1"
    if "pc h = AtGet" "\<not> mutex s"
    using success_solo [OF assms(2), unfolded assms(3) [symmetric], OF that] z [OF that(1)]
    unfolding assms(3) by simp
  have p8: "ret s \<noteq> None \<longrightarrow> cancelled s"
    using i by (auto simp: inv_def inv_main_def split: if_splits)
  have p9: "pc (handlers (run (replicate 4 (Run m)) s) ! m) \<in> {Published, Failed} \<and>
        acks (handlers (run (replicate 4 (Run m)) s) ! m) +
          nacks (handlers (run (replicate 4 (Run m)) s) ! m) = 1"
    if "admitted (pc h)" "cancelled s" "\<not> mutex s \<or> in_critical (pc h)"
  proof -
    have a: "admitted (pc (handlers s ! m))" using that(1) by (simp add: assms(3))
    have c: "\<not> mutex s \<or> in_critical (pc (handlers s ! m))"
      using that(3) by (simp add: assms(3))
    have p: "pc (handlers (run (replicate 4 (Run m)) s) ! m) \<in> {Published, Failed}"
      using assms(2) a that(2) c by (rule complete_solo)
    have "inv (run (replicate 4 (Run m)) s)" using i by (rule inv_run)
    moreover have "m < length (handlers (run (replicate 4 (Run m)) s))"
      using admitted_run [OF assms(2) a, of "replicate 4 (Run m)"] by simp
    ultimately have "acks (handlers (run (replicate 4 (Run m)) s) ! m) +
          nacks (handlers (run (replicate 4 (Run m)) s) ! m) = 1"
      using p by (rule settled_once)
    with p show ?thesis by simp
  qed
  have p10: "\<exists>es'. list_all internal es' \<and>
           pc (handlers (run es' s) ! m) \<in> {Published, Failed} \<and>
           acks (handlers (run es' s) ! m) + nacks (handlers (run es' s) ! m) = 1"
    if "admitted (pc h)"
    using resolves [OF assms(1,2)] that by (simp add: assms(3))
  have p11: "pc h \<in> {Published, Failed} \<and> acks h + nacks h = 1"
    if "admitted (pc h)" "ret s \<noteq> None" "\<forall>k<length (handlers s). step (Run k) s = s"
  proof -
    have d: "mainpc s = MDone" "cancelled s"
      using i that(2) by (auto simp: inv_def inv_main_def split: if_splits)
    have "pc (handlers s ! m) \<in> {Published, Failed}"
      using i assms(2) that(1) d that(3)
      by (intro quiescent_settled) (simp_all add: assms(3))
    then have "pc h \<in> {Published, Failed}" by (simp add: assms(3))
    with ok show ?thesis by auto
  qed
  from p1 p2 p3 p4 p5 p6 p7 p8 p9 p10 p11 accepted_mono_run [of s es] show ?thesis by blast
qed

lemma returned_while_waiting_state:
  "length (handlers (run returned_while_waiting (shovel_init request_one))) = 1"
  "pc (handlers (run returned_while_waiting (shovel_init request_one)) ! 0) = AtGet"
  "acks (handlers (run returned_while_waiting (shovel_init request_one)) ! 0) = 0"
  "nacks (handlers (run returned_while_waiting (shovel_init request_one)) ! 0) = 0"
  "ret (run returned_while_waiting (shovel_init request_one)) = Some (0, None)"
  "\<not> mutex (run returned_while_waiting (shovel_init request_one))"
  by (simp_all add: returned_while_waiting_def admit_one_def shovel_eval
      selectTimeout_def mainStep_def shovel_grace_def Minute_def Second_def)

lemma nacked_after_return_state:
  "length (handlers (run nacked_after_return (shovel_init request_one))) = 1"
  "pc (handlers (run nacked_after_return (shovel_init request_one)) ! 0) = Failed"
  "ret (run nacked_after_return (shovel_init request_one)) = Some (0, None)"
  by (simp_all add: nacked_after_return_def returned_while_waiting_def admit_one_def
      shovel_eval selectTimeout_def mainStep_def shovel_grace_def Minute_def Second_def)

theorem relay_outcome_witness:
  "pc (handlers (run admit_one (shovel_init request_one)) ! 0) = AtGet \<and>
   \<not> mutex (run admit_one (shovel_init request_one)) \<and>
   pc (handlers (run [Got 0 False, Run 0] (run admit_one (shovel_init request_one))) ! 0)
     = Failed \<and>
   nacks (handlers (run [Got 0 False, Run 0] (run admit_one (shovel_init request_one))) ! 0)
     = 1 \<and>
   acks (handlers (run [Got 0 False, Run 0] (run admit_one (shovel_init request_one))) ! 0)
     = 0 \<and>
   processedCount (run [Got 0 False, Run 0] (run admit_one (shovel_init request_one))) = 0 \<and>
   pc (handlers (run [Got 0 True, Run 0, Run 0, Run 0, Run 0]
         (run admit_one (shovel_init request_one))) ! 0) = Published \<and>
   acks (handlers (run [Got 0 True, Run 0, Run 0, Run 0, Run 0]
         (run admit_one (shovel_init request_one))) ! 0) = 1 \<and>
   processedCount (run [Got 0 True, Run 0, Run 0, Run 0, Run 0]
         (run admit_one (shovel_init request_one))) = 1 \<and>
   ret (run returned_while_waiting (shovel_init request_one)) = Some (0, None) \<and>
   pc (handlers (run returned_while_waiting (shovel_init request_one)) ! 0) = AtGet \<and>
   cancelled (run returned_while_waiting (shovel_init request_one)) \<and>
   pc (handlers (run (replicate 4 (Run 0))
         (run returned_while_waiting (shovel_init request_one))) ! 0) \<in> {Published, Failed} \<and>
   acks (handlers (run (replicate 4 (Run 0))
         (run returned_while_waiting (shovel_init request_one))) ! 0) +
   nacks (handlers (run (replicate 4 (Run 0))
         (run returned_while_waiting (shovel_init request_one))) ! 0) = 1 \<and>
   ret (run nacked_after_return (shovel_init request_one)) = Some (0, None) \<and>
   pc (handlers (run nacked_after_return (shovel_init request_one)) ! 0) = Failed \<and>
   nacks (handlers (run nacked_after_return (shovel_init request_one)) ! 0) = 1 \<and>
   acks (handlers (run nacked_after_return (shovel_init request_one)) ! 0) = 0"
proof -
  have m: "0 < length (handlers (run admit_one (shovel_init request_one)))"
    by (simp add: admit_one_state)
  note t = relay_outcome [OF refl m refl, of "[]"]
  have m': "0 < length (handlers (run returned_while_waiting (shovel_init request_one)))"
    by (simp add: returned_while_waiting_state)
  note t' = relay_outcome [OF refl m' refl, of "[]"]
  from t admit_one_state have a:
   "pc (handlers (run [Got 0 False, Run 0] (run admit_one (shovel_init request_one))) ! 0)
     = Failed \<and>
   nacks (handlers (run [Got 0 False, Run 0] (run admit_one (shovel_init request_one))) ! 0)
     = 1 \<and>
   acks (handlers (run [Got 0 False, Run 0] (run admit_one (shovel_init request_one))) ! 0)
     = 0 \<and>
   processedCount (run [Got 0 False, Run 0] (run admit_one (shovel_init request_one))) = 0 \<and>
   pc (handlers (run [Got 0 True, Run 0, Run 0, Run 0, Run 0]
         (run admit_one (shovel_init request_one))) ! 0) = Published \<and>
   acks (handlers (run [Got 0 True, Run 0, Run 0, Run 0, Run 0]
         (run admit_one (shovel_init request_one))) ! 0) = 1 \<and>
   processedCount (run [Got 0 True, Run 0, Run 0, Run 0, Run 0]
         (run admit_one (shovel_init request_one))) = 1"
    by simp
  from t' returned_while_waiting_state have b:
   "cancelled (run returned_while_waiting (shovel_init request_one)) \<and>
   pc (handlers (run (replicate 4 (Run 0))
         (run returned_while_waiting (shovel_init request_one))) ! 0) \<in> {Published, Failed} \<and>
   acks (handlers (run (replicate 4 (Run 0))
         (run returned_while_waiting (shovel_init request_one))) ! 0) +
   nacks (handlers (run (replicate 4 (Run 0))
         (run returned_while_waiting (shovel_init request_one))) ! 0) = 1"
    by simp
  have m'': "0 < length (handlers (run nacked_after_return (shovel_init request_one)))"
    by (simp add: nacked_after_return_state)
  have q: "\<forall>k<length (handlers (run nacked_after_return (shovel_init request_one))).
      step (Run k) (run nacked_after_return (shovel_init request_one)) =
        run nacked_after_return (shovel_init request_one)"
    by (simp add: nacked_after_return_state callback_def)
  note t'' = relay_outcome [OF refl m'' refl, of "[]"]
  from t'' q nacked_after_return_state have c:
   "nacks (handlers (run nacked_after_return (shovel_init request_one)) ! 0) = 1 \<and>
    acks (handlers (run nacked_after_return (shovel_init request_one)) ! 0) = 0"
    by simp
  from a b c admit_one_state returned_while_waiting_state nacked_after_return_state
  show ?thesis by simp
qed

section \<open>The ceiling of an unbounded job\<close>

lemma nth_snoc: "length xs = n \<Longrightarrow> (xs @ [x]) ! n = x"
  by auto

lemma update_snoc: "length xs = n \<Longrightarrow> (xs @ [x])[n := y] = xs @ [y]"
  by auto

lemma serve_step:
  assumes "int n < shovel_maxMessages req"
  shows "run (serve n) (served req n) = served req (Suc n)"
  using assms
  by (simp add: serve_def served_def shovel_init_def callback_defs deliver_def got_def getReturns_def
      nth_snoc update_snoc replicate_append_same)

lemma serve_all_served:
  "int n \<le> shovel_maxMessages req \<Longrightarrow> run (serve_all n) (shovel_init req) = served req n"
proof (induction n)
  case 0
  show ?case by (simp add: served_def shovel_init_def)
next
  case (Suc n)
  then have "run (serve_all n) (shovel_init req) = served req n" by simp
  moreover have "run (serve n) (served req n) = served req (Suc n)"
    using Suc.prems by (intro serve_step) simp
  ultimately show ?case by (simp add: run_append)
qed

lemma unbounded_maxMessages:
  "AllMessages req \<Longrightarrow> maxMessages (run sched (shovel_init req)) = 10000"
  by (simp add: maxMessages_reachable shovel_maxMessages_def)

text \<open>
  Claim C5, amended.  A job with \<open>allMessages = true\<close> runs with
  \<open>maxMessages = 10000\<close>: it admits a delivered message exactly while
  \<open>acceptedCount < 10000\<close>, and \<open>acceptedCount\<close> never exceeds 10000.  A message
  delivered once 10000 have been accepted is never forwarded or acknowledged; its
  callback negatively acknowledges it and cancels the job, also when the source has
  more messages and no timeout has elapsed.
\<close>

theorem unbounded_admission_stops_at_ceiling:
  assumes "AllMessages req" and "s = run sched (shovel_init req)"
  shows "acceptedCount s \<le> 10000 \<and>
     (\<forall>m < length (handlers s).
        pc (handlers s ! m) = AtCheck \<longrightarrow>
          pc (handlers (step (Run m) s) ! m) =
            (if acceptedCount s < 10000 then AccInc else RejUnlock)) \<and>
     (10000 \<le> acceptedCount s \<and> receive s = Receiving \<longrightarrow>
        on_reject_path
          (pc (handlers (run sched' (step Deliver s)) ! length (handlers s))) \<and>
        acks (handlers (run sched' (step Deliver s)) ! length (handlers s)) = 0 \<and>
        forwards (handlers (run sched' (step Deliver s)) ! length (handlers s)) = 0 \<and>
        acceptedCount (run sched' (step Deliver s)) = acceptedCount s \<and>
        (\<not> mutex (step Deliver s) \<longrightarrow>
           pc (handlers (run (replicate 5 (Run (length (handlers s)))) (step Deliver s))
                 ! length (handlers s)) = Rejected \<and>
           nacks (handlers (run (replicate 5 (Run (length (handlers s)))) (step Deliver s))
                 ! length (handlers s)) = 1 \<and>
           cancelled (run (replicate 5 (Run (length (handlers s)))) (step Deliver s))))"
proof -
  have i: "inv s" unfolding assms(2) by (rule inv_reachable)
  have mx: "maxMessages s = 10000"
    unfolding assms(2) using assms(1) by (rule unbounded_maxMessages)
  have a: "acceptedCount s \<le> 10000"
    using accepted_le_max [of s] i mx by (simp add: inv_def)
  have b: "pc (handlers (step (Run m) s) ! m) =
            (if acceptedCount s < 10000 then AccInc else RejUnlock)"
    if "m < length (handlers s)" "pc (handlers s ! m) = AtCheck" for m
    using check_step [OF that] mx by simp
  have c: "on_reject_path
          (pc (handlers (run sched' (step Deliver s)) ! length (handlers s))) \<and>
        acks (handlers (run sched' (step Deliver s)) ! length (handlers s)) = 0 \<and>
        forwards (handlers (run sched' (step Deliver s)) ! length (handlers s)) = 0 \<and>
        acceptedCount (run sched' (step Deliver s)) = acceptedCount s"
    if "10000 \<le> acceptedCount s" "receive s = Receiving"
    using late_message [OF i _ _ that(2) refl refl, of sched'] that(1) mx by simp
  have d: "pc (handlers (run (replicate 5 (Run (length (handlers s)))) (step Deliver s))
                 ! length (handlers s)) = Rejected \<and>
           nacks (handlers (run (replicate 5 (Run (length (handlers s)))) (step Deliver s))
                 ! length (handlers s)) = 1 \<and>
           cancelled (run (replicate 5 (Run (length (handlers s)))) (step Deliver s))"
    if "10000 \<le> acceptedCount s" "receive s = Receiving" "\<not> mutex (step Deliver s)"
  proof -
    have e: "step Deliver s = run [] (step Deliver s)" by simp
    have "pc (handlers (step Deliver s) ! length (handlers s)) = AtLock"
      using that(2) by (simp add: deliver_def)
    with late_message [OF i _ _ that(2) e refl] that(1,3) mx show ?thesis by simp
  qed
  from a b c d show ?thesis by blast
qed

lemma ceiling_state:
  "run (serve_all 10000) (shovel_init request_all) = served request_all 10000"
  by (rule serve_all_served) (simp add: request_all_def shovel_maxMessages_def)

lemma ceiling_facts:
  "acceptedCount (run (serve_all 10000) (shovel_init request_all)) = 10000"
  "receive (run (serve_all 10000) (shovel_init request_all)) = Receiving"
  "clock (run (serve_all 10000) (shovel_init request_all)) = 0"
  "length (handlers (run (serve_all 10000) (shovel_init request_all))) = 10000"
  "\<not> mutex (step Deliver (run (serve_all 10000) (shovel_init request_all)))"
  "cancelled (run (serve_all 10000) (shovel_init request_all)) = False"
  unfolding ceiling_state by (simp_all add: served_def shovel_init_def deliver_def)

lemma ceiling_rejects:
  "pc (handlers (run (replicate 5 (Run 10000))
        (step Deliver (run (serve_all 10000) (shovel_init request_all)))) ! 10000) = Rejected"
  "nacks (handlers (run (replicate 5 (Run 10000))
        (step Deliver (run (serve_all 10000) (shovel_init request_all)))) ! 10000) = 1"
  "forwards (handlers (run (replicate 5 (Run 10000))
        (step Deliver (run (serve_all 10000) (shovel_init request_all)))) ! 10000) = 0"
  "cancelled (run (replicate 5 (Run 10000))
        (step Deliver (run (serve_all 10000) (shovel_init request_all))))"
proof -
  let ?s = "step Deliver (run (serve_all 10000) (shovel_init request_all))"
  have l: "10000 < length (handlers ?s)"
    unfolding ceiling_state by (simp add: served_def shovel_init_def deliver_def)
  have p: "pc (handlers ?s ! 10000) = AtLock" "nacks (handlers ?s ! 10000) = 0"
    "forwards (handlers ?s ! 10000) = 0"
    unfolding ceiling_state by (simp_all add: served_def shovel_init_def deliver_def nth_snoc)
  have m: "\<not> mutex ?s" by (rule ceiling_facts)
  have f: "maxMessages ?s \<le> acceptedCount ?s"
    unfolding ceiling_state
    by (simp add: served_def shovel_init_def deliver_def request_all_def
        shovel_maxMessages_def)
  note r = reject_solo [OF l p(1) m f]
  show "pc (handlers (run (replicate 5 (Run 10000)) ?s) ! 10000) = Rejected" by (rule r(1))
  show "nacks (handlers (run (replicate 5 (Run 10000)) ?s) ! 10000) = 1"
    using r(2) p(2) by simp
  show "forwards (handlers (run (replicate 5 (Run 10000)) ?s) ! 10000) = 0"
    using r(4) p(3) by simp
  show "cancelled (run (replicate 5 (Run 10000)) ?s)" by (rule r(5))
qed

text \<open>
  Claim C5, as stated, has an unbounded job admit every delivered message until the
  source is exhausted or the timeout elapses.  After 10000 messages have been relayed,
  with the source still delivering, the clock at 0 and the job not cancelled, the next
  message is negatively acknowledged, is not forwarded, and the job is cancelled.
\<close>

theorem unbounded_job_stops_at_10000:
  "AllMessages request_all \<and> shovel_validateRequest request_all = None \<and>
   acceptedCount (run (serve_all 10000) (shovel_init request_all)) = 10000 \<and>
   receive (run (serve_all 10000) (shovel_init request_all)) = Receiving \<and>
   clock (run (serve_all 10000) (shovel_init request_all)) = 0 \<and>
   cancelled (run (serve_all 10000) (shovel_init request_all)) = False \<and>
   pc (handlers (run (replicate 5 (Run 10000))
        (step Deliver (run (serve_all 10000) (shovel_init request_all)))) ! 10000) = Rejected \<and>
   nacks (handlers (run (replicate 5 (Run 10000))
        (step Deliver (run (serve_all 10000) (shovel_init request_all)))) ! 10000) = 1 \<and>
   forwards (handlers (run (replicate 5 (Run 10000))
        (step Deliver (run (serve_all 10000) (shovel_init request_all)))) ! 10000) = 0 \<and>
   cancelled (run (replicate 5 (Run 10000))
        (step Deliver (run (serve_all 10000) (shovel_init request_all))))"
  using ceiling_facts ceiling_rejects
  by (simp add: request_all_def shovel_validateRequest_def)

theorem unbounded_admission_stops_at_ceiling_witness:
  "AllMessages request_all \<and>
   10000 \<le> acceptedCount (run (serve_all 10000) (shovel_init request_all)) \<and>
   receive (run (serve_all 10000) (shovel_init request_all)) = Receiving \<and>
   \<not> mutex (step Deliver (run (serve_all 10000) (shovel_init request_all))) \<and>
   acceptedCount (run (serve_all 10000) (shovel_init request_all)) \<le> 10000 \<and>
   pc (handlers (run (replicate 5 (Run (length (handlers
         (run (serve_all 10000) (shovel_init request_all))))))
        (step Deliver (run (serve_all 10000) (shovel_init request_all))))
      ! length (handlers (run (serve_all 10000) (shovel_init request_all)))) = Rejected \<and>
   cancelled (run (replicate 5 (Run (length (handlers
         (run (serve_all 10000) (shovel_init request_all))))))
        (step Deliver (run (serve_all 10000) (shovel_init request_all))))"
proof -
  have a: "AllMessages request_all" by (simp add: request_all_def)
  note t = unbounded_admission_stops_at_ceiling [OF a refl, of "serve_all 10000" "[]"]
  have "10000 \<le> acceptedCount (run (serve_all 10000) (shovel_init request_all))"
    by (simp add: ceiling_facts)
  with t a ceiling_facts(2,5) show ?thesis by blast
qed

section \<open>What a job returns\<close>

lemma shovel_aborts:
  "processShovelRequest env sched req =
     (case newClient env (shovel_extractProjectID (SourceSubscription req)) of
        Some e \<Rightarrow> Aborted (''failed to create pubsub client: '' @ errText e)
      | None \<Rightarrow>
          (case topicExists env (shovel_extractResourceName (TargetTopic req)) of
             Inl e \<Rightarrow> Aborted (''failed to check if target topic exists: '' @ errText e)
           | Inr True \<Rightarrow> Ran (run sched (shovel_init req))
           | Inr False \<Rightarrow>
               Aborted (''target topic '' @ TargetTopic req @ '' does not exist'')))"
  by (simp add: processShovelRequest_def split: option.splits sum.splits)

text \<open>
  Claim C7.  In both packages, when the pubsub client cannot be created, or the
  existence check of the target topic returns an error, or the target topic does not
  exist, the job returns the count 0 and an error, whatever the source would have
  delivered: the relay is never started, so no message is admitted.  When none of the
  three happens the relay runs.
\<close>

theorem precondition_failure_aborts:
  "((newClient env (shovel_extractProjectID (SourceSubscription req)) \<noteq> None \<or>
     (\<exists>e. topicExists env (shovel_extractResourceName (TargetTopic req)) = Inl e) \<or>
     topicExists env (shovel_extractResourceName (TargetTopic req)) = Inr False) \<longrightarrow>
    (\<exists>msg. processShovelRequest env sched req = Aborted msg \<and>
       shovel_returned (processShovelRequest env sched req) = Some (0, Some msg))) \<and>
   ((newClient env (main_extractProjectID (SourceSubscription req)) \<noteq> None \<or>
     (\<exists>e. topicExists env (main_extractResourceName (TargetTopic req)) = Inl e) \<or>
     topicExists env (main_extractResourceName (TargetTopic req)) = Inr False) \<longrightarrow>
    (\<exists>msg. processMessages env sched' req = Aborted msg \<and>
       main_returned (processMessages env sched' req) = Some (0, Some msg))) \<and>
   (newClient env (shovel_extractProjectID (SourceSubscription req)) = None \<and>
    topicExists env (shovel_extractResourceName (TargetTopic req)) = Inr True \<longrightarrow>
    processShovelRequest env sched req = Ran (run sched (shovel_init req))) \<and>
   (newClient env (main_extractProjectID (SourceSubscription req)) = None \<and>
    topicExists env (main_extractResourceName (TargetTopic req)) = Inr True \<longrightarrow>
    processMessages env sched' req = Ran (main_run req sched' (main_init req)))"
  by (auto simp: processShovelRequest_def processMessages_def shovel_returned_def
      main_returned_def split: option.splits sum.splits)

theorem precondition_failure_aborts_witness:
  "processShovelRequest no_client (serve 0) request_one =
     Aborted ''failed to create pubsub client: no credentials'' \<and>
   shovel_returned (processShovelRequest no_client (serve 0) request_one) =
     Some (0, Some ''failed to create pubsub client: no credentials'') \<and>
   main_returned (processMessages no_topic [MDeliver] request_one) =
     Some (0, Some ''target topic projects/p/topics/t does not exist'')"
proof -
  have a: "newClient no_client (shovel_extractProjectID (SourceSubscription request_one)) \<noteq> None"
    by (simp add: no_client_def)
  have b: "topicExists no_topic (main_extractResourceName (TargetTopic request_one)) = Inr False"
    by (simp add: no_topic_def)
  from precondition_failure_aborts [of no_client request_one "serve 0" "[]"] a
  obtain msg where m: "processShovelRequest no_client (serve 0) request_one = Aborted msg"
    "shovel_returned (processShovelRequest no_client (serve 0) request_one) = Some (0, Some msg)"
    by blast
  have m': "msg = ''failed to create pubsub client: no credentials''"
    using m(1) by (simp add: shovel_aborts no_client_def errText_def)
  from precondition_failure_aborts [of no_topic request_one "[]" "[MDeliver]"] b
  obtain msg' where n: "processMessages no_topic [MDeliver] request_one = Aborted msg'"
    "main_returned (processMessages no_topic [MDeliver] request_one) = Some (0, Some msg')"
    by blast
  have n': "msg' = ''target topic projects/p/topics/t does not exist''"
    using n(1) by (simp add: processMessages_def no_topic_def request_one_def)
  from m m' n n' show ?thesis by simp
qed

lemma main_inv_init: "main_inv (main_init req)"
  by (simp add: main_inv_def main_init_def)

lemma main_inv_callback: "main_inv s \<Longrightarrow> main_inv (main_callback m s)"
  by (auto simp: main_inv_def main_callback_def hgoto_def ggoto_def mu_unlock_def
      signal_done_def Let_def split: hpc.splits option.splits)

lemma main_inv_goroutine: "main_inv s \<Longrightarrow> main_inv (main_goroutine m s)"
  by (auto simp: main_inv_def main_goroutine_def ggoto_def mu_unlock_def wg_done_def
      signal_done_def Let_def split: gpc.splits option.splits)

lemma main_inv_got: "main_inv s \<Longrightarrow> main_inv (main_got m ok s)"
  by (auto simp: main_inv_def main_got_def ggoto_def wg_done_def Let_def
      split: option.splits)

lemma main_inv_step: "main_inv s \<Longrightarrow> main_inv (main_step req e s)"
proof (cases e)
  case MMain
  assume "main_inv s"
  with MMain show ?thesis
    by (auto simp: main_inv_def main_mainStep_def split: ppc.splits option.splits)
qed (auto simp: main_inv_callback main_inv_goroutine main_inv_got,
     auto simp: main_inv_def main_deliver_def main_receiveReturns_def main_deadline_def
       split: option.splits)

lemma main_inv_run: "main_inv s \<Longrightarrow> main_inv (main_run req es s)"
  by (induction es arbitrary: s) (simp_all add: main_inv_step del: main_step.simps)

lemma shovel_finish:
  assumes "mainpc s = MSelect" "receive s = RecvSend" "\<not> mutex s"
  shows "ret (run finish s) = Some (processedCount s, None)"
  using assms
  by (simp add: finish_def selectDone_def mainStep_def unlock_def shovel_grace_def Second_def)

lemma main_finish:
  assumes "ppc s = PWait" "wg s = 0"
  shows "main_ret (main_run req [MMain, MMain] s) =
           Some (main_processedCount s, main_returnError (main_err s))"
  using assms by (simp add: main_mainStep_def)

lemma shovel_ret_reachable:
  assumes "inv s" "ret s = Some (n, e)"
  shows "e = None \<and> 0 \<le> n \<and> n \<le> processedCount s \<and> n \<le> acceptedCount s"
  using assms by (auto simp: inv_def inv_main_def split: if_splits)

lemma shovel_ran_reachable:
  "processShovelRequest env sched req = Ran s \<Longrightarrow> s = run sched (shovel_init req)"
  by (auto simp: processShovelRequest_def split: option.splits sum.splits if_splits)

lemma main_ran_reachable:
  "processMessages env sched req = Ran t \<Longrightarrow> t = main_run req sched (main_init req)"
  by (auto simp: processMessages_def split: option.splits sum.splits if_splits)

lemma main_ret_reachable:
  assumes "main_inv t" "main_ret t = Some (n, e)"
  shows "e = main_returnError (main_err t) \<and> 0 \<le> n \<and> n \<le> main_processedCount t"
  using assms by (auto simp: main_inv_def)

lemma main_returnError_iff: "main_returnError err \<noteq> None \<longleftrightarrow> (\<exists>x. err = Some (Failure x))"
proof (cases err)
  case None
  then show ?thesis by (simp add: main_returnError_def)
next
  case (Some a)
  then show ?thesis by (cases a) (simp_all add: main_returnError_def)
qed

text \<open>
  Claim C6, amended.  After the job has started, \<open>processShovelRequest\<close> never
  returns an error: what it returns is the processed count it read after the grace
  period, at most the processed and the accepted count, together with \<open>nil\<close>; once
  \<open>Receive\<close> has returned, with an error or without, and the mutex is free, the main
  goroutine returns the processed count and \<open>nil\<close> (the error of \<open>Receive\<close> is
  only logged).  \<open>processMessages\<close> returns a count between 0 and the processed
  count, and once \<open>Receive\<close> has returned and all publishing goroutines are done
  it returns the processed count; it returns an error exactly when \<open>Receive\<close>
  returned an error other than \<open>context.Canceled\<close>.  Publish failures of single
  messages are returned by neither.
\<close>

theorem source_failure_result:
  "(processShovelRequest env sched req = Ran s \<and> ret s = Some (n, e) \<longrightarrow>
      e = None \<and> 0 \<le> n \<and> n \<le> processedCount s \<and> n \<le> acceptedCount s) \<and>
   (processShovelRequest env sched req = Ran s \<and> mainpc s = MSelect \<and>
      receive s = RecvSend \<and> \<not> mutex s \<longrightarrow>
      ret (run finish s) = Some (processedCount s, None)) \<and>
   (processMessages env sched' req = Ran t \<and> main_ret t = Some (n', e') \<longrightarrow>
      e' = main_returnError (main_err t) \<and> 0 \<le> n' \<and> n' \<le> main_processedCount t) \<and>
   (processMessages env sched' req = Ran t \<and> ppc t = PWait \<and> wg t = 0 \<longrightarrow>
      main_ret (main_run req [MMain, MMain] t) =
        Some (main_processedCount t, main_returnError (main_err t))) \<and>
   (main_returnError err \<noteq> None \<longleftrightarrow> (\<exists>x. err = Some (Failure x))) \<and>
   (main_returnError (Some (Failure x)) = Some (''error during message processing: '' @ x))"
proof -
  have a: "e = None \<and> 0 \<le> n \<and> n \<le> processedCount s \<and> n \<le> acceptedCount s"
    if "processShovelRequest env sched req = Ran s" "ret s = Some (n, e)"
  proof -
    have "inv s" using shovel_ran_reachable [OF that(1)] by (simp add: inv_reachable)
    then show ?thesis using that(2) by (rule shovel_ret_reachable)
  qed
  have b: "ret (run finish s) = Some (processedCount s, None)"
    if "mainpc s = MSelect" "receive s = RecvSend" "\<not> mutex s"
    using that by (rule shovel_finish)
  have c: "e' = main_returnError (main_err t) \<and> 0 \<le> n' \<and> n' \<le> main_processedCount t"
    if "processMessages env sched' req = Ran t" "main_ret t = Some (n', e')"
  proof -
    have "main_inv t"
      using main_ran_reachable [OF that(1)] by (simp add: main_inv_run main_inv_init)
    then show ?thesis using that(2) by (rule main_ret_reachable)
  qed
  have d: "main_ret (main_run req [MMain, MMain] t) =
        Some (main_processedCount t, main_returnError (main_err t))"
    if "ppc t = PWait" "wg t = 0"
    using that by (rule main_finish)
  have f: "main_returnError (Some (Failure x)) = Some (''error during message processing: '' @ x)"
    by (simp add: main_returnError_def errText_def)
  from a b c d f main_returnError_iff [of err] show ?thesis by blast
qed

lemma receive_fails_run:
  "processShovelRequest ok_env receive_fails request_one =
     Ran (run receive_fails (shovel_init request_one))"
  by (simp add: processShovelRequest_def ok_env_def)

lemma receive_fails_state:
  "receiveErr (run receive_fails (shovel_init request_one)) = Some (Failure ''connection lost'')"
  "ret (run receive_fails (shovel_init request_one)) = Some (1, None)"
  by (simp_all add: receive_fails_def finish_def serve_def request_one_def shovel_init_def
      shovel_maxMessages_def shovel_timeout_def callback_defs deliver_def got_def getReturns_def
      receiveReturns_def selectDone_def mainStep_def shovel_grace_def Second_def)

text \<open>
  Claim C6, as stated, has every failure of the consumption loop surface as an error of
  the job.  \<open>processShovelRequest\<close>, after one relayed message and a failing
  \<open>Receive\<close>, returns the count 1 and \<open>nil\<close>; \<open>processMessages\<close> returns
  \<open>nil\<close> when \<open>Receive\<close> fails with \<open>context.Canceled\<close>.
\<close>

theorem receive_error_not_returned:
  "processShovelRequest ok_env receive_fails request_one =
     Ran (run receive_fails (shovel_init request_one)) \<and>
   receiveErr (run receive_fails (shovel_init request_one)) = Some (Failure ''connection lost'') \<and>
   shovel_returned (processShovelRequest ok_env receive_fails request_one) = Some (1, None) \<and>
   processMessages ok_env main_receive_canceled request_one =
     Ran (main_run request_one main_receive_canceled (main_init request_one)) \<and>
   main_err (main_run request_one main_receive_canceled (main_init request_one)) = Some Canceled \<and>
   main_returned (processMessages ok_env main_receive_canceled request_one) = Some (0, None)"
  by (simp add: receive_fails_run receive_fails_state shovel_returned_def)
     (simp add: processMessages_def ok_env_def main_returned_def main_receive_canceled_def
       main_init_def main_receiveReturns_def main_mainStep_def main_returnError_def)

theorem source_failure_result_witness:
  "processMessages ok_env main_receive_fails request_one =
     Ran (main_run request_one main_receive_fails (main_init request_one)) \<and>
   main_ret (main_run request_one main_receive_fails (main_init request_one)) =
     Some (0, Some ''error during message processing: connection lost'') \<and>
   processShovelRequest ok_env receive_fails request_one =
     Ran (run receive_fails (shovel_init request_one)) \<and>
   ret (run receive_fails (shovel_init request_one)) = Some (1, None) \<and>
   1 \<le> processedCount (run receive_fails (shovel_init request_one))"
proof -
  have p: "processMessages ok_env main_receive_fails request_one =
     Ran (main_run request_one main_receive_fails (main_init request_one))"
    by (simp add: processMessages_def ok_env_def)
  have r: "main_ret (main_run request_one main_receive_fails (main_init request_one)) =
     Some (0, Some ''error during message processing: connection lost'')"
    by (simp add: main_receive_fails_def main_init_def main_receiveReturns_def
        main_mainStep_def main_returnError_def errText_def)
  note t = source_failure_result [of ok_env receive_fails request_one
      "run receive_fails (shovel_init request_one)" 1 None main_receive_fails
      "main_run request_one main_receive_fails (main_init request_one)" 0
      "Some ''error during message processing: connection lost''"]
  from t p r receive_fails_run receive_fails_state(2) show ?thesis by simp
qed

section \<open>Timeouts\<close>

lemma select_timeout_guard:
  "step SelectTimeout s \<noteq> s \<Longrightarrow> mainpc s = MSelect \<and> timeout s \<le> clock s"
  by (auto simp: selectTimeout_def split: if_splits)

lemma select_timeout_fires:
  "mainpc s = MSelect \<Longrightarrow> timeout s \<le> clock s \<Longrightarrow>
   mainpc (step SelectTimeout s) = MSleep \<and> cancelled (step SelectTimeout s) \<and>
   wake (step SelectTimeout s) = clock s + shovel_grace"
  by (simp add: selectTimeout_def)

lemma sleep_guard:
  "mainpc s = MSleep \<Longrightarrow> mainpc (step MainStep s) = (if wake s \<le> clock s then MLock else MSleep)"
  by (simp add: mainStep_def)

lemma main_steps_retry_nothing:
  "handlers (step SelectTimeout s) = handlers s"
  "acceptedCount (step SelectTimeout s) = acceptedCount s"
  "processedCount (step SelectTimeout s) = processedCount s"
  "handlers (step MainStep s) = handlers s"
  "acceptedCount (step MainStep s) = acceptedCount s"
  "processedCount (step MainStep s) = processedCount s"
  by (simp_all add: selectTimeout_def mainStep_def unlock_def split: mpc.splits)

lemma main_deadline_retries_nothing:
  "main_handlers (main_step req MDeadline t) = main_handlers t"
  "main_processedCount (main_step req MDeadline t) = main_processedCount t"
  "ppc (main_step req MDeadline t) = ppc t"
  by (simp_all add: main_deadline_def)

text \<open>
  Claim C8, amended.  \<open>processShovelRequest\<close> uses two timeouts: the wall-clock
  timeout of the job, 10 minutes for an unbounded job and 5 minutes for a bounded one,
  and a fixed sleep of 2 seconds after the \<open>select\<close>, shorter than either.
  \<open>processMessages\<close> uses one timeout of 10 minutes for both modes.  The timeout
  branch of the \<open>select\<close> is taken only when the timeout has elapsed; it cancels
  the job and starts the sleep.  The sleep ends only when the 2 seconds have elapsed.
  Neither these steps nor the deadline of \<open>processMessages\<close> touch a message or a
  counter: nothing is retried.
\<close>

theorem timeouts_only_end_the_job:
  "shovel_timeout req = (if AllMessages req then 10 * Minute else 5 * Minute) \<and>
   (AllMessages a \<and> \<not> AllMessages b \<longrightarrow> shovel_timeout b < shovel_timeout a) \<and>
   shovel_grace = 2 * Second \<and> 0 < shovel_grace \<and> shovel_grace < shovel_timeout req \<and>
   main_timeout req = 10 * Minute \<and>
   (s = run sched (shovel_init req) \<longrightarrow>
      (step SelectTimeout s \<noteq> s \<longrightarrow> mainpc s = MSelect \<and> shovel_timeout req \<le> clock s) \<and>
      (mainpc s = MSelect \<and> shovel_timeout req \<le> clock s \<longrightarrow>
         mainpc (step SelectTimeout s) = MSleep \<and> cancelled (step SelectTimeout s) \<and>
         wake (step SelectTimeout s) = clock s + shovel_grace) \<and>
      (mainpc s = MSleep \<longrightarrow>
         mainpc (step MainStep s) = (if wake s \<le> clock s then MLock else MSleep))) \<and>
   handlers (step SelectTimeout s) = handlers s \<and>
   acceptedCount (step SelectTimeout s) = acceptedCount s \<and>
   processedCount (step SelectTimeout s) = processedCount s \<and>
   handlers (step MainStep s) = handlers s \<and>
   acceptedCount (step MainStep s) = acceptedCount s \<and>
   processedCount (step MainStep s) = processedCount s \<and>
   main_handlers (main_step req MDeadline t) = main_handlers t \<and>
   main_processedCount (main_step req MDeadline t) = main_processedCount t \<and>
   ppc (main_step req MDeadline t) = ppc t"
proof -
  have c: "shovel_timeout req = (if AllMessages req then 10 * Minute else 5 * Minute)"
    "AllMessages a \<and> \<not> AllMessages b \<longrightarrow> shovel_timeout b < shovel_timeout a"
    "shovel_grace = 2 * Second" "0 < shovel_grace" "shovel_grace < shovel_timeout req"
    "main_timeout req = 10 * Minute"
    by (simp_all add: shovel_timeout_def shovel_grace_def main_timeout_def Minute_def Second_def)
  have g: "(step SelectTimeout s \<noteq> s \<longrightarrow> mainpc s = MSelect \<and> shovel_timeout req \<le> clock s) \<and>
      (mainpc s = MSelect \<and> shovel_timeout req \<le> clock s \<longrightarrow>
         mainpc (step SelectTimeout s) = MSleep \<and> cancelled (step SelectTimeout s) \<and>
         wake (step SelectTimeout s) = clock s + shovel_grace) \<and>
      (mainpc s = MSleep \<longrightarrow>
         mainpc (step MainStep s) = (if wake s \<le> clock s then MLock else MSleep))"
    if "s = run sched (shovel_init req)"
  proof -
    have t: "timeout s = shovel_timeout req" unfolding that by (rule timeout_reachable)
    show ?thesis
      using select_timeout_guard [of s] select_timeout_fires [of s] sleep_guard [of s]
      unfolding t by blast
  qed
  from c g main_steps_retry_nothing [of s] main_deadline_retries_nothing [of req t]
  show ?thesis by blast
qed

text \<open>
  Claim C8, as stated, has every job use a timeout that is strictly longer for unbounded
  jobs, and a fixed grace period.  \<open>processMessages\<close> gives both modes the same 10
  minutes, and it has no grace period: after \<open>Receive\<close> has returned it waits for
  its publishing goroutines (\<open>wg.Wait()\<close>) however much time has passed.
\<close>

theorem main_timeout_same_for_both_modes:
  "AllMessages request_all \<and> \<not> AllMessages request_one \<and>
   main_timeout request_all = 600000000000 \<and> main_timeout request_one = 600000000000 \<and>
   \<not> main_timeout request_one < main_timeout request_all \<and>
   main_clock (main_run request_one main_still_waiting (main_init request_one)) = 3600000000000 \<and>
   main_ctxDone (main_run request_one main_still_waiting (main_init request_one)) \<and>
   ppc (main_run request_one main_still_waiting (main_init request_one)) = PWait"
  by (simp add: request_all_def main_timeout_def Minute_def Second_def)
     (simp add: main_still_waiting_def request_one_def main_init_def main_callback_def
       main_goroutine_def main_deliver_def hgoto_def ggoto_def mu_unlock_def signal_done_def
       main_receiveReturns_def main_deadline_def main_mainStep_def main_timeout_def
       Minute_def Second_def Let_def)

theorem timeouts_only_end_the_job_witness:
  "AllMessages request_all \<and> \<not> AllMessages request_one \<and>
   shovel_timeout request_one < shovel_timeout request_all \<and>
   shovel_timeout request_one = 300000000000 \<and>
   mainpc (run [Tick 300000000000] (shovel_init request_one)) = MSelect \<and>
   shovel_timeout request_one \<le> clock (run [Tick 300000000000] (shovel_init request_one)) \<and>
   mainpc (step SelectTimeout (run [Tick 300000000000] (shovel_init request_one))) = MSleep \<and>
   cancelled (step SelectTimeout (run [Tick 300000000000] (shovel_init request_one))) \<and>
   wake (step SelectTimeout (run [Tick 300000000000] (shovel_init request_one))) =
     302000000000"
proof -
  have a: "AllMessages request_all" "\<not> AllMessages request_one"
    by (simp_all add: request_all_def request_one_def)
  have s: "mainpc (run [Tick 300000000000] (shovel_init request_one)) = MSelect"
    "clock (run [Tick 300000000000] (shovel_init request_one)) = 300000000000"
    by (simp_all add: shovel_init_def)
  note t = timeouts_only_end_the_job [of request_one request_all request_one
      "run [Tick 300000000000] (shovel_init request_one)" "[Tick 300000000000]"]
  have v: "shovel_timeout request_one = 300000000000"
    using t a by (simp add: Minute_def Second_def)
  have g: "shovel_grace = 2000000000" using t by (simp add: Second_def)
  from t a s v g show ?thesis by simp
qed

end
